theory Spec2Isabelle
  imports Complex_Main "HOL-Library.Word" "HOL-Library.Log_Nat"
begin

section \<open>The LDAP connection pool of \<^verbatim>\<open>plugin/auth_ldap/src/pool.cc\<close>\<close>

text \<open>
  The pool owns a vector of shared pointers to connection handles, a bitmap with one
  in-use bit per slot, and the endpoint configuration. Handles are shared between the
  pool and a borrower, so they live in an explicit store and the pool holds addresses.
  Every operation is modelled as it runs with the pool mutex held, that is, as one
  sequential step; a detached reclamation thread is recorded as a flag in the result of
  the operation that spawns it and runs later as a \<open>zombie_control\<close> step of its own.

  A \<^verbatim>\<open>std::size_t\<close> value is a \<open>nat\<close> and an \<^verbatim>\<open>int\<close> slot index is an \<open>int\<close>. Where the
  source converts one into the other the model applies the conversion of the machine:
  \<open>int_of_size_t\<close> keeps the low 32 bits as a signed number, \<open>size_t_of_int\<close> extends the
  sign to 64 bits. The occupancy threshold is computed in IEEE double arithmetic, as the
  source does.
\<close>

subsection \<open>Errors\<close>

text \<open>
  An index beyond a vector or a bitmap, and a call through a null or dangling pointer,
  are undefined behaviour in the source. The model makes them results.
\<close>

datatype error = OutOfRange | NullPointer

fun ebind :: "error + 'a \<Rightarrow> ('a \<Rightarrow> error + 'b) \<Rightarrow> error + 'b" where
  "ebind (Inl e) f = Inl e"
| "ebind (Inr v) f = f v"

text \<open>A counted \<^verbatim>\<open>for\<close> loop over the indices \<open>is\<close>, the body threading the state.\<close>

fun for_each :: "(nat \<Rightarrow> 's \<Rightarrow> error + 's) \<Rightarrow> nat list \<Rightarrow> 's \<Rightarrow> error + 's" where
  "for_each body [] s = Inr s"
| "for_each body (i # is) s =
     (case body i s of Inl e \<Rightarrow> Inl e | Inr s' \<Rightarrow> for_each body is s')"

subsection \<open>Machine arithmetic\<close>

text \<open>
  The conversions between \<^verbatim>\<open>std::size_t\<close> (64 bits) and \<^verbatim>\<open>int\<close> (32 bits) that the
  source makes implicitly: the narrowing keeps the low 32 bits and reads them in two's
  complement, the widening extends the sign.
\<close>

definition int_of_size_t :: "nat \<Rightarrow> int" where
  "int_of_size_t i = sint (word_of_nat i :: 32 word)"

definition size_t_of_int :: "int \<Rightarrow> nat" where
  "size_t_of_int z = unat (word_of_int z :: 64 word)"

text \<open>
  A double between 0 and \<open>2 ^ 64\<close> is modelled by its value. A \<^verbatim>\<open>std::size_t\<close> converts
  to the double that has its 53 leading bits, rounded to nearest with ties to even. The
  constant \<^verbatim>\<open>0.9\<close> is the double \<open>mantissa_0_9 / 2 ^ 53\<close>, and the product of a double
  with it is the exact product, rounded in the same way.
\<close>

definition round_shift :: "nat \<Rightarrow> nat \<Rightarrow> nat" where
  \<comment> \<open>\<open>P / 2 ^ s\<close> rounded to the nearest integer, ties to even\<close>
  "round_shift P s =
     (let q = P div 2 ^ s; r = P mod 2 ^ s in
      if 2 * r < 2 ^ s then q else if 2 ^ s < 2 * r then q + 1
      else if even q then q else q + 1)"

definition round53 :: "nat \<Rightarrow> nat" where
  \<comment> \<open>\<open>P\<close> rounded to 53 significant bits\<close>
  "round53 P = (let s = floorlog 2 P - 53 in round_shift P s * 2 ^ s)"

definition double_of_size_t :: "nat \<Rightarrow> real" where
  \<comment> \<open>the implicit conversion of a \<^verbatim>\<open>std::size_t\<close> operand to \<^verbatim>\<open>double\<close>\<close>
  "double_of_size_t n = real (round53 n)"

definition mantissa_0_9 :: nat where
  "mantissa_0_9 = 8106479329266893"

definition scaled_times_0_9 :: "nat \<Rightarrow> nat" where
  \<comment> \<open>\<open>2 ^ 53\<close> times the double \<^verbatim>\<open>n * 0.9\<close>, for a \<^verbatim>\<open>std::size_t\<close> \<open>n\<close>\<close>
  "scaled_times_0_9 n = round53 (round53 n * mantissa_0_9)"

definition double_times_0_9 :: "nat \<Rightarrow> real" where
  \<comment> \<open>\<^verbatim>\<open>n * 0.9\<close> for a \<^verbatim>\<open>std::size_t\<close> \<open>n\<close>\<close>
  "double_times_0_9 n = real (scaled_times_0_9 n) / 2 ^ 53"

subsection \<open>Connection handles\<close>

datatype status = SUCCESS | FAILURE

record Connection =
  idx_pool :: nat
  conn_host :: string
  conn_port :: "16 word"
  conn_fallback_host :: string
  conn_fallback_port :: "16 word"
  conn_use_ssl :: bool
  conn_use_tls :: bool
  available :: bool
  snipped :: bool
  connected :: bool

text \<open>
  The directory decides whether a bind succeeds, and the liveness probe decides whether a
  handle is a zombie. Both are outside the pool and are parameters of the model.
\<close>

type_synonym directory = "Connection \<Rightarrow> string \<Rightarrow> string \<Rightarrow> status"
type_synonym probe = "Connection \<Rightarrow> bool"

definition Connection_new ::
  "nat \<Rightarrow> string \<Rightarrow> 16 word \<Rightarrow> string \<Rightarrow> 16 word \<Rightarrow> bool \<Rightarrow> bool \<Rightarrow> Connection" where
  \<comment> \<open>Modelled from the spec: the constructor of the Connection class, which is not among
      the sources. A fresh handle carries its slot index, is free, not snipped and not
      connected.\<close>
  "Connection_new i host port fhost fport ssl tls =
     \<lparr>idx_pool = i, conn_host = host, conn_port = port, conn_fallback_host = fhost,
      conn_fallback_port = fport, conn_use_ssl = ssl, conn_use_tls = tls,
      available = True, snipped = False, connected = False\<rparr>"

definition Connection_configure ::
  "Connection \<Rightarrow> string \<Rightarrow> 16 word \<Rightarrow> string \<Rightarrow> 16 word \<Rightarrow> bool \<Rightarrow> bool \<Rightarrow> Connection" where
  \<comment> \<open>Modelled from the spec: Connection::configure, which is not among the sources. It
      replaces the connection parameters, with no network activity.\<close>
  "Connection_configure c host port fhost fport ssl tls =
     c\<lparr>conn_host := host, conn_port := port, conn_fallback_host := fhost,
       conn_fallback_port := fport, conn_use_ssl := ssl, conn_use_tls := tls\<rparr>"

definition Connection_connect ::
  "directory \<Rightarrow> Connection \<Rightarrow> string \<Rightarrow> string \<Rightarrow> status \<times> Connection" where
  \<comment> \<open>Modelled from the spec: Connection::connect, which is not among the sources. It
      performs the bind and reports its status; the handle remembers whether it holds a
      session. The authentication response is discarded by every caller in the pool.\<close>
  "Connection_connect srv c dn pwd =
     (srv c dn pwd, c\<lparr>connected := (srv c dn pwd = SUCCESS)\<rparr>)"

definition Connection_mark_as_busy :: "Connection \<Rightarrow> Connection" where
  \<comment> \<open>Modelled from the spec: Connection::mark_as_busy, a handle-local status toggle.\<close>
  "Connection_mark_as_busy c = c\<lparr>available := False\<rparr>"

definition Connection_mark_as_free :: "Connection \<Rightarrow> Connection" where
  \<comment> \<open>Modelled from the spec: Connection::mark_as_free, a handle-local status toggle.\<close>
  "Connection_mark_as_free c = c\<lparr>available := True\<rparr>"

definition Connection_mark_as_snipped :: "Connection \<Rightarrow> Connection" where
  \<comment> \<open>Modelled from the spec: Connection::mark_as_snipped, the one-way retirement flag.\<close>
  "Connection_mark_as_snipped c = c\<lparr>snipped := True\<rparr>"

definition Connection_is_snipped :: "Connection \<Rightarrow> bool" where
  \<comment> \<open>Modelled from the spec: Connection::is_snipped.\<close>
  "Connection_is_snipped c = snipped c"

definition Connection_get_idx_pool :: "Connection \<Rightarrow> nat" where
  \<comment> \<open>Modelled from the spec: Connection::get_idx_pool, the immutable slot index: the
      \<^verbatim>\<open>std::size_t\<close> that the constructor was given.\<close>
  "Connection_get_idx_pool c = idx_pool c"

subsection \<open>The store of handles\<close>

text \<open>
  A \<^verbatim>\<open>std::shared_ptr<Connection>\<close> is an optional address into the store, \<open>None\<close> being
  the null pointer. \<^verbatim>\<open>std::make_shared\<close> allocates at the end of the store. The store
  keeps every handle ever made: a handle whose last reference is dropped is unreachable
  from then on.
\<close>

type_synonym addr = nat
type_synonym store = "Connection list"
type_synonym pool_ptr_t = "addr option"

definition make_shared :: "store \<Rightarrow> Connection \<Rightarrow> pool_ptr_t \<times> store" where
  "make_shared h c = (Some (length h), h @ [c])"

definition deref :: "store \<Rightarrow> pool_ptr_t \<Rightarrow> error + addr" where
  "deref h r =
     (case r of None \<Rightarrow> Inl NullPointer
      | Some a \<Rightarrow> if a < length h then Inr a else Inl NullPointer)"

subsection \<open>The pool\<close>

record Pool =
  pool_initial_size :: nat
  pool_max_size :: nat
  ldap_host :: string
  ldap_port :: "16 word"
  ldap_fallback_host :: string
  ldap_fallback_port :: "16 word"
  use_ssl :: bool
  use_tls :: bool
  ca_path :: string
  bind_dn :: string
  bind_pwd :: string
  bs_used :: "bool list"
  v_connections :: "pool_ptr_t list"
  group_role_mapping :: "string \<rightharpoonup> string"

text \<open>
  The answer of the directory to a bind may depend on everything that can be observed
  when the bind is made. In the model it may depend on the pool as it is at that moment.
\<close>

type_synonym service = "Pool \<Rightarrow> directory"

text \<open>\<^verbatim>\<open>v_connections_[i]\<close>: the vector's unchecked subscript.\<close>

definition slot_at :: "Pool \<Rightarrow> nat \<Rightarrow> error + pool_ptr_t" where
  "slot_at p i =
     (if i < length (v_connections p) then Inr (v_connections p ! i) else Inl OutOfRange)"

text \<open>\<^verbatim>\<open>bs_used_.test(i)\<close>, \<^verbatim>\<open>bs_used_.all()\<close> and \<^verbatim>\<open>bs_used_.count()\<close> of the dynamic bitset.\<close>

definition bs_test :: "bool list \<Rightarrow> nat \<Rightarrow> error + bool" where
  "bs_test used i = (if i < length used then Inr (used ! i) else Inl OutOfRange)"

definition bs_all :: "bool list \<Rightarrow> bool" where
  "bs_all used = list_all id used"

definition bs_count :: "bool list \<Rightarrow> nat" where
  "bs_count used = length (filter id used)"

text \<open>\<^verbatim>\<open>bs_used_.set(i, v)\<close>: a write beyond the bitmap is undefined behaviour.\<close>

definition bs_set :: "bool list \<Rightarrow> nat \<Rightarrow> bool \<Rightarrow> error + bool list" where
  "bs_set used i v = (if i < length used then Inr (used[i := v]) else Inl OutOfRange)"

text \<open>\<^verbatim>\<open>Pool::mark_as_busy\<close>: \<^verbatim>\<open>bs_used_.set(idx, true)\<close>, with no check of its own.\<close>

definition mark_as_busy :: "Pool \<Rightarrow> nat \<Rightarrow> error + Pool" where
  "mark_as_busy p idx =
     ebind (bs_set (bs_used p) idx True) (\<lambda>used. Inr (p\<lparr>bs_used := used\<rparr>))"

text \<open>\<^verbatim>\<open>Pool::mark_as_free\<close>: \<^verbatim>\<open>if (bs_used_.size() > idx) bs_used_.set(idx, false)\<close>.\<close>

definition mark_as_free :: "Pool \<Rightarrow> nat \<Rightarrow> error + Pool" where
  "mark_as_free p idx =
     (if length (bs_used p) > idx
      then ebind (bs_set (bs_used p) idx False) (\<lambda>used. Inr (p\<lparr>bs_used := used\<rparr>))
      else Inr p)"

text \<open>
  \<^verbatim>\<open>Pool::find_first_free\<close>: \<open>-1\<close> at once when every bit is set, otherwise the loop over
  \<open>0 \<le> i < pool_max_size_\<close> that breaks at the first clear bit. The loop counter is a
  \<^verbatim>\<open>std::size_t\<close> and the result an \<^verbatim>\<open>int\<close>: \<^verbatim>\<open>idx = i\<close> narrows.
\<close>

fun scan_free :: "bool list \<Rightarrow> nat list \<Rightarrow> error + int" where
  "scan_free used [] = Inr (- 1)"
| "scan_free used (i # is) =
     (case bs_test used i of
        Inl e \<Rightarrow> Inl e
      | Inr b \<Rightarrow> if \<not> b then Inr (int_of_size_t i) else scan_free used is)"

definition find_first_free :: "Pool \<Rightarrow> error + int" where
  "find_first_free p =
     (if \<not> bs_all (bs_used p) then scan_free (bs_used p) [0..<pool_max_size p]
      else Inr (- 1))"

text \<open>
  \<^verbatim>\<open>Pool::get_connection\<close>: fetch the slot's handle, connect it when asked to, and give
  the null pointer when the connect fails; otherwise mark the handle busy. The subscript
  \<^verbatim>\<open>v_connections_[idx]\<close> widens the \<^verbatim>\<open>int\<close> index.
\<close>

definition get_connection ::
  "service \<Rightarrow> Pool \<Rightarrow> store \<Rightarrow> int \<Rightarrow> bool \<Rightarrow> error + (pool_ptr_t \<times> store)" where
  "get_connection srv p h idx default_connect =
     ebind (slot_at p (size_t_of_int idx)) (\<lambda>conn.
     ebind (deref h conn) (\<lambda>a.
       if default_connect then
         (case Connection_connect (srv p) (h ! a) (bind_dn p) (bind_pwd p) of
            (st, c) \<Rightarrow>
              if st \<noteq> SUCCESS then Inr (None, h[a := c])
              else Inr (conn, h[a := Connection_mark_as_busy c]))
       else Inr (conn, h[a := Connection_mark_as_busy (h ! a)])))"

text \<open>
  \<^verbatim>\<open>Pool::borrow_connection\<close>. The \<^verbatim>\<open>int\<close> index is widened where it is passed to
  \<^verbatim>\<open>mark_as_busy\<close> and \<^verbatim>\<open>mark_as_free\<close>, which take a \<^verbatim>\<open>size_t\<close>. The result is the handle
  (or the null pointer), the pool, the store, and whether a detached \<^verbatim>\<open>zombie_control\<close>
  thread was spawned.
\<close>

definition borrow_connection ::
  "service \<Rightarrow> bool \<Rightarrow> Pool \<Rightarrow> store \<Rightarrow> error + (pool_ptr_t \<times> Pool \<times> store \<times> bool)" where
  "borrow_connection srv default_connect p h =
     ebind (find_first_free p) (\<lambda>idx.
       if idx = - 1 then Inr (None, p, h, True)
       else
         ebind (mark_as_busy p (size_t_of_int idx)) (\<lambda>p1.
         ebind (get_connection srv p1 h idx default_connect) (\<lambda>(conn, h1).
           if conn = None
           then ebind (mark_as_free p1 (size_t_of_int idx)) (\<lambda>p2. Inr (None, p2, h1, False))
           else Inr (conn, p1, h1, False))))"

text \<open>
  \<^verbatim>\<open>Pool::return_connection\<close>. The handle is marked free first; a snipped handle is then
  only released (\<^verbatim>\<open>conn.reset()\<close>). Otherwise \<^verbatim>\<open>const int idx = conn->get_idx_pool()\<close>
  holds the handle's index as an \<^verbatim>\<open>int\<close>: the \<^verbatim>\<open>std::size_t\<close> that the handle was made
  with, narrowed, be it when the handle stored it or here. \<^verbatim>\<open>mark_as_free(idx)\<close> widens
  it again and frees the pool's bit, and the occupancy is compared with
  \<^verbatim>\<open>std::ceil(pool_max_size_ * 0.9)\<close>, both sides of the comparison being doubles. The
  last component of the result tells whether the detached \<^verbatim>\<open>zombie_control\<close> thread was
  spawned.
\<close>

definition return_connection :: "Pool \<Rightarrow> store \<Rightarrow> pool_ptr_t \<Rightarrow> error + (Pool \<times> store \<times> bool)" where
  "return_connection p h conn =
     ebind (deref h conn) (\<lambda>a.
       let h1 = h[a := Connection_mark_as_free (h ! a)] in
       if Connection_is_snipped (h1 ! a) then Inr (p, h1, False)
       else
         let idx = int_of_size_t (Connection_get_idx_pool (h1 ! a)) in
         ebind (mark_as_free p (size_t_of_int idx)) (\<lambda>p1.
           Inr (p1, h1,
                double_of_size_t (bs_count (bs_used p1))
                  \<ge> real_of_int \<lceil>double_times_0_9 (pool_max_size p1)\<rceil>)))"

text \<open>
  \<^verbatim>\<open>boost::algorithm::split(result, input, boost::is_any_of(seps))\<close> with the default
  \<^verbatim>\<open>token_compress_off\<close>: the input is cut at every separator character, adjacent
  separators give empty tokens, and the result always has at least one token.
\<close>

definition is_any_of :: "string \<Rightarrow> char \<Rightarrow> bool" where
  "is_any_of seps c = (c \<in> set seps)"

fun boost_split :: "(char \<Rightarrow> bool) \<Rightarrow> string \<Rightarrow> string list" where
  "boost_split P [] = [[]]"
| "boost_split P (c # cs) =
     (if P c then [] # boost_split P cs
      else (case boost_split P cs of [] \<Rightarrow> [[c]] | t # ts \<Rightarrow> (c # t) # ts))"

text \<open>
  \<^verbatim>\<open>Pool::reset_group_role_mapping\<close>: the body of the loop over the entries, and the
  function. \<^verbatim>\<open>r[0]\<close> and \<^verbatim>\<open>r[1]\<close> are unchecked subscripts.
\<close>

definition add_role :: "string \<Rightarrow> (string \<rightharpoonup> string) \<Rightarrow> error + (string \<rightharpoonup> string)" where
  "add_role role m =
     (let r = boost_split (is_any_of ''='') role in
      if length r = 1 then Inr (m(role \<mapsto> role))
      else if 1 < length r then Inr (m(r ! 0 \<mapsto> r ! 1))
      else Inl OutOfRange)"

fun add_roles :: "string list \<Rightarrow> (string \<rightharpoonup> string) \<Rightarrow> error + (string \<rightharpoonup> string)" where
  "add_roles [] m = Inr m"
| "add_roles (role # roles) m =
     (case add_role role m of Inl e \<Rightarrow> Inl e | Inr m' \<Rightarrow> add_roles roles m')"

definition reset_group_role_mapping :: "string \<Rightarrow> Pool \<Rightarrow> error + Pool" where
  "reset_group_role_mapping mapping p =
     (let roles = boost_split (is_any_of '','') mapping in
      ebind (add_roles roles Map.empty) (\<lambda>m. Inr (p\<lparr>group_role_mapping := m\<rparr>)))"

text \<open>
  \<^verbatim>\<open>Pool::zombie_control\<close>: the body of the loop over the slots, and the function.
\<close>

definition zombie_body :: "probe \<Rightarrow> nat \<Rightarrow> Pool \<times> store \<Rightarrow> error + (Pool \<times> store)" where
  "zombie_body is_zombie i s =
     (case s of (p, h) \<Rightarrow>
        ebind (bs_test (bs_used p) i) (\<lambda>b.
          if \<not> b then Inr (p, h)
          else
            ebind (slot_at p i) (\<lambda>conn.
            ebind (deref h conn) (\<lambda>a.
              if is_zombie (h ! a)
              then ebind (mark_as_free p i) (\<lambda>p1.
                     Inr (p1, h[a := Connection_mark_as_free (h ! a)]))
              else Inr (p, h)))))"

definition zombie_control :: "probe \<Rightarrow> Pool \<Rightarrow> store \<Rightarrow> error + (Pool \<times> store)" where
  "zombie_control is_zombie p h =
     for_each (zombie_body is_zombie) [0..<pool_max_size p] (p, h)"

text \<open>
  \<^verbatim>\<open>resize(n)\<close> of a vector or of the bitmap: truncate, or append default values.
\<close>

definition resize :: "'a list \<Rightarrow> nat \<Rightarrow> 'a \<Rightarrow> 'a list" where
  "resize xs n d = take n xs @ replicate (n - length xs) d"

text \<open>The loop bodies shared by the constructor and \<^verbatim>\<open>reconfigure\<close>.\<close>

definition connect_slot :: "service \<Rightarrow> nat \<Rightarrow> Pool \<times> store \<Rightarrow> error + (Pool \<times> store)" where
  \<comment> \<open>\<^verbatim>\<open>v_connections_[i]->connect(bind_dn_, bind_pwd_, auth_resp)\<close>, the status ignored\<close>
  "connect_slot srv i s =
     (case s of (p, h) \<Rightarrow>
        ebind (slot_at p i) (\<lambda>conn.
        ebind (deref h conn) (\<lambda>a.
          Inr (p, h[a := snd (Connection_connect (srv p) (h ! a) (bind_dn p) (bind_pwd p))]))))"

definition new_slot ::
  "string \<Rightarrow> 16 word \<Rightarrow> string \<Rightarrow> 16 word \<Rightarrow> bool \<Rightarrow> bool \<Rightarrow> nat \<Rightarrow> Pool \<times> store
     \<Rightarrow> error + (Pool \<times> store)" where
  \<comment> \<open>\<^verbatim>\<open>v_connections_[i] = std::make_shared<Connection>(i, host, port, ...)\<close>\<close>
  "new_slot host port fhost fport ssl tls i s =
     (case s of (p, h) \<Rightarrow>
        if i < length (v_connections p) then
          (case make_shared h (Connection_new i host port fhost fport ssl tls) of
             (r, h') \<Rightarrow> Inr (p\<lparr>v_connections := (v_connections p)[i := r]\<rparr>, h'))
        else Inl OutOfRange)"

definition snip_slot :: "nat \<Rightarrow> Pool \<times> store \<Rightarrow> error + (Pool \<times> store)" where
  \<comment> \<open>\<^verbatim>\<open>v_connections_[i]->mark_as_snipped()\<close>\<close>
  "snip_slot i s =
     (case s of (p, h) \<Rightarrow>
        ebind (slot_at p i) (\<lambda>conn.
        ebind (deref h conn) (\<lambda>a.
          Inr (p, h[a := Connection_mark_as_snipped (h ! a)]))))"

definition configure_slot :: "service \<Rightarrow> nat \<Rightarrow> Pool \<times> store \<Rightarrow> error + (Pool \<times> store)" where
  \<comment> \<open>the body of the reconnect loop: configure, and connect below \<^verbatim>\<open>pool_initial_size_\<close>\<close>
  "configure_slot srv i s =
     (case s of (p, h) \<Rightarrow>
        ebind (slot_at p i) (\<lambda>conn.
        ebind (deref h conn) (\<lambda>a.
          let h1 = h[a := Connection_configure (h ! a) (ldap_host p) (ldap_port p)
                             (ldap_fallback_host p) (ldap_fallback_port p)
                             (use_ssl p) (use_tls p)]
          in if i < pool_initial_size p then connect_slot srv i (p, h1) else Inr (p, h1))))"

text \<open>
  The constructor \<^verbatim>\<open>Pool::Pool\<close>, from the store as it is when the pool is built. The
  one-time global LDAP set-up it calls has no effect on the pool.
\<close>

definition ctor_slot :: "service \<Rightarrow> nat \<Rightarrow> Pool \<times> store \<Rightarrow> error + (Pool \<times> store)" where
  "ctor_slot srv i s =
     ebind (new_slot (ldap_host (fst s)) (ldap_port (fst s)) (ldap_fallback_host (fst s))
              (ldap_fallback_port (fst s)) (use_ssl (fst s)) (use_tls (fst s)) i s) (\<lambda>s1.
       if i < pool_initial_size (fst s1) then connect_slot srv i s1 else Inr s1)"

definition Pool_new ::
  "service \<Rightarrow> nat \<Rightarrow> nat \<Rightarrow> string \<Rightarrow> 16 word \<Rightarrow> string \<Rightarrow> 16 word \<Rightarrow> bool \<Rightarrow> bool
     \<Rightarrow> string \<Rightarrow> string \<Rightarrow> string \<Rightarrow> store \<Rightarrow> error + (Pool \<times> store)" where
  "Pool_new srv initial_size max_size host port fhost fport ssl tls ca dn pwd h =
     (let p0 = \<lparr>pool_initial_size = initial_size, pool_max_size = max_size,
                ldap_host = host, ldap_port = port,
                ldap_fallback_host = fhost, ldap_fallback_port = fport,
                use_ssl = ssl, use_tls = tls, ca_path = ca,
                bind_dn = dn, bind_pwd = pwd,
                bs_used = [], v_connections = [], group_role_mapping = Map.empty\<rparr>;
          p1 = p0\<lparr>bs_used := resize (bs_used p0) (pool_max_size p0) False\<rparr>;
          p2 = p1\<lparr>v_connections := resize (v_connections p1) (pool_max_size p1) None\<rparr>
      in for_each (ctor_slot srv) [0..<pool_max_size p2] (p2, h))"

text \<open>
  \<^verbatim>\<open>Pool::reconfigure\<close>: the forced zombie sweep, the resize, the new configuration, and
  the two reconnect loops.
\<close>

definition resize_pool ::
  "nat \<Rightarrow> string \<Rightarrow> 16 word \<Rightarrow> string \<Rightarrow> 16 word \<Rightarrow> bool \<Rightarrow> bool \<Rightarrow> Pool \<times> store
     \<Rightarrow> error + (Pool \<times> store)" where
  "resize_pool new_max host port fhost fport ssl tls s =
     (case s of (p, h) \<Rightarrow>
        if new_max \<noteq> pool_max_size p then
          (let p1 = p\<lparr>bs_used := resize (bs_used p) new_max False\<rparr> in
           ebind (if new_max < pool_max_size p1
                  then for_each snip_slot [new_max..<pool_max_size p1] (p1, h)
                  else Inr (p1, h)) (\<lambda>(p2, h2).
             let p3 = p2\<lparr>v_connections := resize (v_connections p2) new_max None\<rparr> in
             ebind (if new_max > pool_max_size p3
                    then for_each (new_slot host port fhost fport ssl tls)
                           [pool_max_size p3..<new_max] (p3, h2)
                    else Inr (p3, h2)) (\<lambda>(p4, h4).
               Inr (p4\<lparr>pool_max_size := new_max\<rparr>, h4))))
        else Inr (p, h))"

definition reconfigure ::
  "service \<Rightarrow> probe \<Rightarrow> nat \<Rightarrow> nat \<Rightarrow> string \<Rightarrow> 16 word \<Rightarrow> string \<Rightarrow> 16 word \<Rightarrow> bool \<Rightarrow> bool
     \<Rightarrow> string \<Rightarrow> string \<Rightarrow> string \<Rightarrow> Pool \<Rightarrow> store \<Rightarrow> error + (Pool \<times> store)" where
  "reconfigure srv is_zombie new_initial_size new_max_size host port fhost fport ssl tls
     ca dn pwd p h =
     ebind (zombie_control is_zombie p h) (\<lambda>s0.
     ebind (resize_pool new_max_size host port fhost fport ssl tls s0) (\<lambda>(p1, h1).
       let p2 = p1\<lparr>ldap_host := host, ldap_port := port,
                   ldap_fallback_host := fhost, ldap_fallback_port := fport,
                   use_ssl := ssl, use_tls := tls, ca_path := ca,
                   pool_initial_size := new_initial_size,
                   bind_dn := dn, bind_pwd := pwd\<rparr>
       in ebind (for_each (configure_slot srv) [0..<pool_max_size p2] (p2, h1)) (\<lambda>s3.
            for_each (connect_slot srv) [0..<new_initial_size] s3)))"

subsection \<open>Sequences of operations\<close>

text \<open>
  A pool operation together with the answers of its environment while it runs: the
  directory and the liveness probe.
\<close>

datatype op =
    Borrow bool
  | Return pool_ptr_t
  | Reconfigure nat nat string "16 word" string "16 word" bool bool string string string
  | Zombie_control
  | Reset_mapping string

fun step :: "service \<times> probe \<times> op \<Rightarrow> Pool \<times> store \<Rightarrow> error + (Pool \<times> store)" where
  "step (srv, zmb, Borrow dc) (p, h) =
     ebind (borrow_connection srv dc p h) (\<lambda>(conn, p', h', sweep). Inr (p', h'))"
| "step (srv, zmb, Return conn) (p, h) =
     ebind (return_connection p h conn) (\<lambda>(p', h', sweep). Inr (p', h'))"
| "step (srv, zmb, Reconfigure ni nm host port fhost fport ssl tls ca dn pwd) (p, h) =
     reconfigure srv zmb ni nm host port fhost fport ssl tls ca dn pwd p h"
| "step (srv, zmb, Zombie_control) (p, h) = zombie_control zmb p h"
| "step (srv, zmb, Reset_mapping m) (p, h) =
     ebind (reset_group_role_mapping m p) (\<lambda>p'. Inr (p', h))"

fun run :: "(service \<times> probe \<times> op) list \<Rightarrow> Pool \<times> store \<Rightarrow> error + (Pool \<times> store)" where
  "run [] s = Inr s"
| "run (x # xs) s = (case step x s of Inl e \<Rightarrow> Inl e | Inr s' \<Rightarrow> run xs s')"

subsection \<open>Well-formed pools\<close>

text \<open>
  The shape every pool has between two operations: the bitmap and the slot vector have
  \<open>pool_max_size\<close> entries, every slot holds a live handle, and no two slots share one.
\<close>

definition valid_ptr :: "store \<Rightarrow> pool_ptr_t \<Rightarrow> bool" where
  "valid_ptr h r = (case r of None \<Rightarrow> False | Some a \<Rightarrow> a < length h)"

definition pool_inv :: "Pool \<Rightarrow> store \<Rightarrow> bool" where
  "pool_inv p h \<longleftrightarrow>
     length (bs_used p) = pool_max_size p \<and>
     length (v_connections p) = pool_max_size p \<and>
     list_all (valid_ptr h) (v_connections p) \<and>
     distinct (v_connections p)"

text \<open>The lowest free index of a bitmap.\<close>

definition lowest_free :: "bool list \<Rightarrow> nat \<Rightarrow> bool" where
  "lowest_free used i \<longleftrightarrow> i < length used \<and> \<not> used ! i \<and> list_all id (take i used)"

text \<open>
  Two stores of the same handles, each with the index and the snipped flag it had.
\<close>

definition same_keys :: "store \<Rightarrow> store \<Rightarrow> bool" where
  "same_keys h h' \<longleftrightarrow>
     length h' = length h \<and> map idx_pool h' = map idx_pool h \<and> map snipped h' = map snipped h"

text \<open>The pool with the configuration that \<open>reconfigure\<close> stores.\<close>

definition with_config ::
  "nat \<Rightarrow> string \<Rightarrow> 16 word \<Rightarrow> string \<Rightarrow> 16 word \<Rightarrow> bool \<Rightarrow> bool \<Rightarrow> string \<Rightarrow> string \<Rightarrow> string
     \<Rightarrow> Pool \<Rightarrow> Pool" where
  "with_config ni host port fhost fport ssl tls ca dn pwd p =
     p\<lparr>ldap_host := host, ldap_port := port,
       ldap_fallback_host := fhost, ldap_fallback_port := fport,
       use_ssl := ssl, use_tls := tls, ca_path := ca,
       pool_initial_size := ni, bind_dn := dn, bind_pwd := pwd\<rparr>"

subsection \<open>Entries of the group to role mapping, in words\<close>

definition before_eq :: "string \<Rightarrow> string" where
  \<comment> \<open>the text before the first \<open>=\<close>\<close>
  "before_eq e = takeWhile (\<lambda>c. c \<noteq> CHR ''='') e"

definition after_eq :: "string \<Rightarrow> string" where
  \<comment> \<open>the text after the first \<open>=\<close>\<close>
  "after_eq e = tl (dropWhile (\<lambda>c. c \<noteq> CHR ''='') e)"

definition spec_entry :: "string \<Rightarrow> string \<times> string" where
  \<comment> \<open>The specification's words: an entry is split on the first \<open>=\<close> into group and
      role, and a bare entry maps the group to itself.\<close>
  "spec_entry e = (if CHR ''='' \<in> set e then (before_eq e, after_eq e) else (e, e))"

definition piece_entry :: "string \<Rightarrow> string \<times> string" where
  \<comment> \<open>The group is the text before the first \<open>=\<close>; the role is the text between the
      first \<open>=\<close> and the second, or up to the end when there is no second one.\<close>
  "piece_entry e =
     (if CHR ''='' \<in> set e then (before_eq e, before_eq (after_eq e)) else (e, e))"

definition mapping_of :: "(string \<Rightarrow> string \<times> string) \<Rightarrow> string list \<Rightarrow> (string \<rightharpoonup> string)" where
  \<comment> \<open>the entries stored in order, a later entry replacing an earlier one of its group\<close>
  "mapping_of f es = foldl (\<lambda>m e. m(fst (f e) \<mapsto> snd (f e))) Map.empty es"

fun join_with :: "char \<Rightarrow> string list \<Rightarrow> string" where
  "join_with c [] = []"
| "join_with c [t] = t"
| "join_with c (t # u # ts) = t @ c # join_with c (u # ts)"

subsection \<open>Example states\<close>

text \<open>
  A directory that accepts every bind, a probe that finds the connection of slot 0 dead,
  and one that finds no dead connection.
\<close>

definition accepting :: service where
  "accepting p c dn pwd = SUCCESS"

definition dead_slot0 :: probe where
  "dead_slot0 c = (idx_pool c = 0)"

definition no_zombie :: probe where
  "no_zombie c = False"

text \<open>
  The pool of two slots that the constructor builds on the empty store, with no eager
  connection, and the same pool after slot 0 has been borrowed.
\<close>

definition fresh_conn :: "nat \<Rightarrow> Connection" where
  "fresh_conn i = Connection_new i ''ldap'' 389 ''backup'' 636 False True"

definition pool2 :: Pool where
  "pool2 = \<lparr>pool_initial_size = 0, pool_max_size = 2,
            ldap_host = ''ldap'', ldap_port = 389,
            ldap_fallback_host = ''backup'', ldap_fallback_port = 636,
            use_ssl = False, use_tls = True, ca_path = ''ca'',
            bind_dn = ''cn=admin'', bind_pwd = ''secret'',
            bs_used = [False, False], v_connections = [Some 0, Some 1],
            group_role_mapping = Map.empty\<rparr>"

definition store2 :: store where
  "store2 = [fresh_conn 0, fresh_conn 1]"

definition pool2_busy :: Pool where
  "pool2_busy = pool2\<lparr>bs_used := [True, False]\<rparr>"

definition store2_busy :: store where
  "store2_busy = [Connection_mark_as_busy (fresh_conn 0), fresh_conn 1]"

text \<open>The same pool with both slots borrowed.\<close>

definition pool2_full :: Pool where
  "pool2_full = pool2\<lparr>bs_used := [True, True]\<rparr>"

definition store2_full :: store where
  "store2_full = [Connection_mark_as_busy (fresh_conn 0), Connection_mark_as_busy (fresh_conn 1)]"


text \<open>
  What is left of the full pool of two slots when it is reconfigured to one slot: slot 0
  stays borrowed, and the borrowed handle of the former slot 1 is snipped.
\<close>

definition pool1_shrunk :: Pool where
  "pool1_shrunk = pool2\<lparr>pool_max_size := 1, bs_used := [True], v_connections := [Some 0]\<rparr>"

definition store_shrunk :: store where
  "store_shrunk =
     [Connection_mark_as_busy (fresh_conn 0),
      Connection_mark_as_snipped (Connection_mark_as_busy (fresh_conn 1))]"

text \<open>
  The pool of \<open>n\<close> slots whose first \<open>k\<close> slots are borrowed, and its store.
\<close>

definition filled_pool :: "nat \<Rightarrow> nat \<Rightarrow> Pool" where
  "filled_pool n k =
     pool2\<lparr>pool_max_size := n, bs_used := replicate k True @ replicate (n - k) False,
           v_connections := map Some [0..<n]\<rparr>"

definition filled_store :: "nat \<Rightarrow> nat \<Rightarrow> store" where
  "filled_store n k =
     map (\<lambda>i. if i < k then Connection_mark_as_busy (fresh_conn i) else fresh_conn i) [0..<n]"

text \<open>
  A pool of \<open>2 ^ 31 + 1\<close> slots of which only the last is free, and a pool of
  \<open>2501999792983609\<close> slots with \<open>2 ^ 51 + 1\<close> of them borrowed.
\<close>

definition pool_beyond_int :: Pool where
  "pool_beyond_int = filled_pool (2 ^ 31 + 1) (2 ^ 31)"

definition store_beyond_int :: store where
  "store_beyond_int = filled_store (2 ^ 31 + 1) (2 ^ 31)"




definition snipped_store :: store where
  "snipped_store =
     [fresh_conn 0, fresh_conn 1,
      Connection_mark_as_snipped (Connection_mark_as_busy (fresh_conn 2))]"

section \<open>Properties\<close>

text \<open>The definitions that the evaluation of an example unfolds.\<close>

lemmas conn_defs = fresh_conn_def Connection_new_def Connection_mark_as_busy_def
  Connection_mark_as_free_def Connection_mark_as_snipped_def Connection_configure_def
  Connection_connect_def Connection_is_snipped_def Connection_get_idx_pool_def

lemmas loop_defs = zombie_control_def zombie_body_def bs_test_def slot_at_def deref_def
  mark_as_free_def bs_set_def connect_slot_def snip_slot_def configure_slot_def new_slot_def
  ctor_slot_def make_shared_def resize_def resize_pool_def

lemmas borrow_defs = borrow_connection_def find_first_free_def bs_all_def mark_as_busy_def
  get_connection_def

subsection \<open>Machine arithmetic\<close>

text \<open>
  In the range of an \<^verbatim>\<open>int\<close> the conversions of slot indices change nothing. An index
  from \<open>2 ^ 31\<close> up to \<open>2 ^ 32\<close> narrows to a negative \<^verbatim>\<open>int\<close>, which widens to a
  \<^verbatim>\<open>size_t\<close> above \<open>2 ^ 63\<close>.
\<close>

lemma int_of_size_t_small: "i < 2 ^ 31 \<Longrightarrow> int_of_size_t i = int i"
  unfolding int_of_size_t_def
  by (simp add: signed_of_nat signed_take_bit_int_eq_self)

lemma size_t_of_int_small: "0 \<le> z \<Longrightarrow> z < 2 ^ 63 \<Longrightarrow> size_t_of_int z = nat z"
  unfolding size_t_of_int_def
  by (simp add: unsigned_of_int take_bit_int_eq_self)

lemma size_t_of_int_nat: "i < 2 ^ 63 \<Longrightarrow> size_t_of_int (int i) = i"
proof -
  assume "i < 2 ^ 63"
  then have "int i < int (2 ^ 63)" by (simp only: of_nat_less_iff)
  then show ?thesis using size_t_of_int_small [of "int i"] by simp
qed



lemma size_t_of_int_negative:
  assumes "- (2 ^ 63) \<le> z" "z < 0"
  shows "size_t_of_int z = nat (2 ^ 64 + z)"
proof -
  have "uint (word_of_int z :: 64 word) = z mod 2 ^ 64"
    by (simp add: uint_word_of_int)
  also have "\<dots> = (z + 2 ^ 64) mod 2 ^ 64"
    by simp
  also have "\<dots> = z + 2 ^ 64"
    using assms by (intro mod_pos_pos_trivial) simp_all
  finally have "unat (word_of_int z :: 64 word) = nat (z + 2 ^ 64)"
    by (simp only: unat_eq_nat_uint)
  then show ?thesis
    unfolding size_t_of_int_def by (simp add: add.commute)
qed

lemma int_of_size_t_wrap: "int_of_size_t (2 ^ 31) = - (2 ^ 31)"
  unfolding int_of_size_t_def by simp





















subsection \<open>The group to role mapping\<close>

lemma boost_split_not_Nil: "boost_split P s \<noteq> []"
  by (induction s) (auto split: list.splits)

lemma boost_split_no_sep: "\<forall>c\<in>set e. \<not> P c \<Longrightarrow> boost_split P e = [e]"
  by (induction e) auto

lemma boost_split_at_sep:
  "\<forall>x\<in>set xs. \<not> P x \<Longrightarrow> P c \<Longrightarrow> boost_split P (xs @ c # r) = xs # boost_split P r"
  by (induction xs) (auto split: list.splits)

text \<open>
  The tokens are what lies between the separators: none holds a separator, and joined
  with the separator they give back the input.
\<close>

lemma boost_split_tokens: "\<forall>e\<in>set (boost_split P s). \<forall>c\<in>set e. \<not> P c"
  by (induction s) (auto split: if_splits list.splits)

lemma join_boost_split_eq: "join_with sep (boost_split (\<lambda>c. c = sep) s) = s"
proof (induction s)
  case Nil
  show ?case by simp
next
  case (Cons c cs)
  obtain t ts where "boost_split (\<lambda>c. c = sep) cs = t # ts"
    using boost_split_not_Nil [of "\<lambda>c. c = sep" cs]
    by (cases "boost_split (\<lambda>c. c = sep) cs") auto
  with Cons show ?case
    by (cases ts) auto
qed

lemma is_any_of_single: "is_any_of [sep] = (\<lambda>c. c = sep)"
  by (auto simp: is_any_of_def)

lemma join_boost_split: "join_with sep (boost_split (is_any_of [sep]) s) = s"
  by (simp add: is_any_of_single join_boost_split_eq)

lemma split_at_first_eq:
  assumes "CHR ''='' \<in> set e"
  shows "e = before_eq e @ CHR ''='' # after_eq e"
proof -
  from assms obtain c r where d: "dropWhile (\<lambda>c. c \<noteq> CHR ''='') e = c # r"
    by (cases "dropWhile (\<lambda>c. c \<noteq> CHR ''='') e") (auto simp: dropWhile_eq_Nil_conv)
  then have "c = CHR ''=''"
    using hd_dropWhile [of "\<lambda>c. c \<noteq> CHR ''=''" e] by auto
  with d have "e = takeWhile (\<lambda>c. c \<noteq> CHR ''='') e @ CHR ''='' # r"
    using takeWhile_dropWhile_id [of "\<lambda>c. c \<noteq> CHR ''=''" e] by simp
  with d show ?thesis by (simp add: before_eq_def after_eq_def)
qed

lemma before_eq_no_sep: "\<forall>x\<in>set (before_eq e). \<not> is_any_of ''='' x"
  by (auto simp: before_eq_def is_any_of_def dest: set_takeWhileD)

lemma boost_split_eq_head:
  "boost_split (is_any_of ''='') e =
     before_eq e #
       (if CHR ''='' \<in> set e then boost_split (is_any_of ''='') (after_eq e) else [])"
proof (cases "CHR ''='' \<in> set e")
  case True
  have "boost_split (is_any_of ''='') (before_eq e @ CHR ''='' # after_eq e) =
          before_eq e # boost_split (is_any_of ''='') (after_eq e)"
    by (rule boost_split_at_sep [OF before_eq_no_sep]) (simp add: is_any_of_def)
  with True show ?thesis using split_at_first_eq [OF True] by simp
next
  case False
  then have "before_eq e = e" by (auto simp: before_eq_def takeWhile_eq_all_conv)
  moreover from False have "boost_split (is_any_of ''='') e = [e]"
    by (intro boost_split_no_sep) (auto simp: is_any_of_def)
  ultimately show ?thesis using False by simp
qed

lemma add_role_entry: "add_role e m = Inr (m(fst (piece_entry e) \<mapsto> snd (piece_entry e)))"
proof (cases "CHR ''='' \<in> set e")
  case False
  then have "boost_split (is_any_of ''='') e = [e]"
    by (intro boost_split_no_sep) (auto simp: is_any_of_def)
  with False show ?thesis by (simp add: add_role_def piece_entry_def)
next
  case True
  obtain ts where ts: "boost_split (is_any_of ''='') (after_eq e) = before_eq (after_eq e) # ts"
    using boost_split_eq_head [of "after_eq e"] by simp
  have "boost_split (is_any_of ''='') e = before_eq e # before_eq (after_eq e) # ts"
    using boost_split_eq_head [of e] True ts by simp
  with True show ?thesis
    by (simp add: add_role_def piece_entry_def)
qed

lemma add_roles_entries:
  "add_roles es m = Inr (foldl (\<lambda>m e. m(fst (piece_entry e) \<mapsto> snd (piece_entry e))) m es)"
  by (induction es arbitrary: m) (simp_all add: add_role_entry)

lemma piece_entry_one_eq:
  assumes "count_list e (CHR ''='') \<le> 1"
  shows "piece_entry e = spec_entry e"
proof (cases "CHR ''='' \<in> set e")
  case False
  then show ?thesis by (simp add: piece_entry_def spec_entry_def)
next
  case True
  have "count_list (before_eq e @ CHR ''='' # after_eq e) (CHR ''='') \<le> 1"
    using assms split_at_first_eq [OF True] by simp
  then have "count_list (after_eq e) (CHR ''='') = 0" by simp
  then have "CHR ''='' \<notin> set (after_eq e)" by (simp add: count_list_0_iff)
  then have "before_eq (after_eq e) = after_eq e"
    by (auto simp: before_eq_def takeWhile_eq_all_conv)
  with True show ?thesis by (simp add: piece_entry_def spec_entry_def)
qed

text \<open>
  C7, as the code has it. \<open>reset_group_role_mapping\<close> always completes and replaces the
  mapping, and only the mapping, by the one built from the entries between the commas.
  Each entry is cut at every \<open>=\<close>: a bare entry maps its group to itself, otherwise the
  group is the text before the first \<open>=\<close> and the role is the text between the first
  \<open>=\<close> and the second one, or up to the end of the entry when there is no second one.
  For an entry with at most one \<open>=\<close> that is the split on the first \<open>=\<close>. In particular
  \<open>a=1,b=2,c\<close> yields exactly the mapping of \<open>a\<close> to \<open>1\<close>, \<open>b\<close> to \<open>2\<close> and \<open>c\<close> to \<open>c\<close>.
\<close>

theorem reset_group_role_mapping_pieces:
  "reset_group_role_mapping s p =
     Inr (p\<lparr>group_role_mapping :=
            mapping_of piece_entry (boost_split (is_any_of '','') s)\<rparr>)
   \<and> (count_list e (CHR ''='') \<le> 1 \<longrightarrow> piece_entry e = spec_entry e)
   \<and> reset_group_role_mapping ''a=1,b=2,c'' p =
       Inr (p\<lparr>group_role_mapping := [''a'' \<mapsto> ''1'', ''b'' \<mapsto> ''2'', ''c'' \<mapsto> ''c'']\<rparr>)"
proof (intro conjI impI)
  show "reset_group_role_mapping s p =
     Inr (p\<lparr>group_role_mapping :=
            mapping_of piece_entry (boost_split (is_any_of '','') s)\<rparr>)"
    by (simp add: reset_group_role_mapping_def add_roles_entries mapping_of_def)
  show "reset_group_role_mapping ''a=1,b=2,c'' p =
       Inr (p\<lparr>group_role_mapping := [''a'' \<mapsto> ''1'', ''b'' \<mapsto> ''2'', ''c'' \<mapsto> ''c'']\<rparr>)"
    by (simp add: reset_group_role_mapping_def add_role_def is_any_of_def)
qed (rule piece_entry_one_eq)

theorem reset_group_role_mapping_pieces_witness:
  "reset_group_role_mapping ''x=y,z'' pool2 =
     Inr (pool2\<lparr>group_role_mapping := [''x'' \<mapsto> ''y'', ''z'' \<mapsto> ''z'']\<rparr>)
   \<and> count_list ''x=y'' (CHR ''='') \<le> 1
   \<and> piece_entry ''x=y'' = (''x'', ''y'')
   \<and> spec_entry ''x=y'' = (''x'', ''y'')"
  using reset_group_role_mapping_pieces [of "''x=y,z''" pool2 "''x=y''"]
  by (simp add: mapping_of_def is_any_of_def piece_entry_def spec_entry_def before_eq_def
      after_eq_def)

text \<open>
  The entry \<open>a=b=c\<close> shows the difference from a split on the first \<open>=\<close> only: the code
  stores the role \<open>b\<close>, the split on the first \<open>=\<close> gives the role \<open>b=c\<close>.
\<close>

theorem reset_group_role_mapping_second_eq:
  "reset_group_role_mapping ''a=b=c'' pool2 =
     Inr (pool2\<lparr>group_role_mapping := [''a'' \<mapsto> ''b'']\<rparr>)
   \<and> mapping_of spec_entry (boost_split (is_any_of '','') ''a=b=c'') = [''a'' \<mapsto> ''b=c'']
   \<and> reset_group_role_mapping ''a=b=c'' pool2 \<noteq>
     Inr (pool2\<lparr>group_role_mapping :=
            mapping_of spec_entry (boost_split (is_any_of '','') ''a=b=c'')\<rparr>)"
proof -
  have code: "reset_group_role_mapping ''a=b=c'' pool2 =
     Inr (pool2\<lparr>group_role_mapping := [''a'' \<mapsto> ''b'']\<rparr>)"
    by (simp add: reset_group_role_mapping_def add_role_def is_any_of_def)
  have spec: "mapping_of spec_entry (boost_split (is_any_of '','') ''a=b=c'') =
      [''a'' \<mapsto> ''b=c'']"
    by (simp add: mapping_of_def is_any_of_def spec_entry_def before_eq_def after_eq_def)
  have "group_role_mapping (pool2\<lparr>group_role_mapping := [''a'' \<mapsto> ''b'']\<rparr>) ''a''
      \<noteq> group_role_mapping (pool2\<lparr>group_role_mapping := [''a'' \<mapsto> ''b=c'']\<rparr>) ''a''"
    by simp
  then have "pool2\<lparr>group_role_mapping := [''a'' \<mapsto> ''b'']\<rparr>
      \<noteq> pool2\<lparr>group_role_mapping := [''a'' \<mapsto> ''b=c'']\<rparr>"
    by metis
  with code spec show ?thesis by simp
qed

text \<open>
  C10. The empty string splits into one empty entry, which is bare, so the mapping that
  results is not empty: it is exactly the empty group name mapped to itself.
\<close>

theorem reset_group_role_mapping_empty:
  "reset_group_role_mapping [] p = Inr (p\<lparr>group_role_mapping := [[] \<mapsto> []]\<rparr>)
   \<and> [[] \<mapsto> []] \<noteq> (Map.empty :: string \<rightharpoonup> string)
   \<and> dom [([] :: string) \<mapsto> ([] :: string)] = {[]}"
  by (simp add: reset_group_role_mapping_def add_role_def is_any_of_def)

subsection \<open>Loops\<close>

lemma for_each_append:
  "for_each body (xs @ ys) s =
     (case for_each body xs s of Inl e \<Rightarrow> Inl e | Inr s' \<Rightarrow> for_each body ys s')"
  by (induction xs arbitrary: s) (auto split: sum.splits)

text \<open>A loop invariant that may mention the index reached.\<close>

lemma for_each_upt_inv:
  assumes "I lo s" and "lo \<le> hi"
    and step: "\<And>i s. i < hi \<Longrightarrow> I i s \<Longrightarrow> \<exists>s'. body i s = Inr s' \<and> I (Suc i) s'"
  shows "\<exists>s'. for_each body [lo..<hi] s = Inr s' \<and> I hi s'"
  using assms(1,2)
proof (induction "hi - lo" arbitrary: lo s)
  case 0
  then show ?case by simp
next
  case (Suc d)
  then have lt: "lo < hi" by simp
  from step [OF lt Suc.prems(1)] obtain s1 where s1: "body lo s = Inr s1" "I (Suc lo) s1"
    by blast
  from Suc.hyps(2) lt have "d = hi - Suc lo" "Suc lo \<le> hi" by simp_all
  from Suc.hyps(1) [OF this(1) s1(2) this(2)]
  obtain s' where "for_each body [Suc lo..<hi] s1 = Inr s'" "I hi s'" by blast
  with s1 lt show ?case by (simp add: upt_conv_Cons)
qed

lemma run_append:
  "run (xs @ ys) s = (case run xs s of Inl e \<Rightarrow> Inl e | Inr s' \<Rightarrow> run ys s')"
  by (induction xs arbitrary: s) (auto split: sum.splits)

subsection \<open>Finding a free slot\<close>

lemma scan_free_none:
  "n \<le> length used \<Longrightarrow> \<forall>j. k \<le> j \<and> j < n \<longrightarrow> used ! j \<Longrightarrow> scan_free used [k..<n] = Inr (- 1)"
proof (induction "n - k" arbitrary: k)
  case 0
  then show ?case by simp
next
  case (Suc d)
  then have "k < n" by simp
  with Suc show ?case
    by (simp add: upt_conv_Cons bs_test_def)
qed

lemma scan_free_found:
  "i < n \<Longrightarrow> n \<le> length used \<Longrightarrow> k \<le> i \<Longrightarrow> \<not> used ! i \<Longrightarrow> \<forall>j. k \<le> j \<and> j < i \<longrightarrow> used ! j
     \<Longrightarrow> scan_free used [k..<n] = Inr (int_of_size_t i)"
proof (induction "i - k" arbitrary: k)
  case 0
  then have "k = i" by simp
  with 0 show ?case by (simp add: upt_conv_Cons bs_test_def)
next
  case (Suc d)
  then have "k < i" "k < n" "used ! k" by simp_all
  with Suc show ?case
    by (simp add: upt_conv_Cons bs_test_def)
qed

lemma bs_all_nth: "bs_all used \<longleftrightarrow> (\<forall>j < length used. used ! j)"
  by (auto simp: bs_all_def list_all_length)

lemma bs_all_count: "bs_all used \<longleftrightarrow> bs_count used = length used"
proof
  assume "bs_all used"
  then have "filter id used = used" by (simp add: bs_all_def list_all_iff)
  then show "bs_count used = length used" by (simp add: bs_count_def)
next
  assume c: "bs_count used = length used"
  show "bs_all used"
  proof (rule ccontr)
    assume "\<not> bs_all used"
    then obtain x where "x \<in> set used" "\<not> id x" by (auto simp: bs_all_def list_all_iff)
    then have "length (filter id used) < length used" by (rule length_filter_less)
    with c show False by (simp add: bs_count_def)
  qed
qed

lemma bs_count_le: "bs_count used \<le> length used"
  by (simp add: bs_count_def)

lemma lowest_free_nth:
  "lowest_free used i \<longleftrightarrow> i < length used \<and> \<not> used ! i \<and> (\<forall>j < i. used ! j)"
  by (auto simp: lowest_free_def list_all_length)

lemma lowest_free_exists:
  assumes "\<not> bs_all used"
  shows "\<exists>i. lowest_free used i"
proof -
  from assms obtain j where j: "j < length used \<and> \<not> used ! j" by (auto simp: bs_all_nth)
  define i where "i = (LEAST j. j < length used \<and> \<not> used ! j)"
  have "i < length used \<and> \<not> used ! i" unfolding i_def using j by (rule LeastI)
  moreover have "\<forall>k < i. used ! k"
  proof (intro allI impI)
    fix k assume "k < i"
    then have "\<not> (k < length used \<and> \<not> used ! k)" unfolding i_def by (rule not_less_Least)
    with \<open>k < i\<close> calculation show "used ! k" by simp
  qed
  ultimately show ?thesis by (auto simp: lowest_free_nth)
qed

lemma find_first_free_none:
  "bs_all (bs_used p) \<Longrightarrow> find_first_free p = Inr (- 1)"
  by (simp add: find_first_free_def)

text \<open>
  The scan stops at the lowest free index, and gives it as the \<^verbatim>\<open>int\<close> it narrows to.
\<close>

lemma find_first_free_found:
  assumes "length (bs_used p) = pool_max_size p" "lowest_free (bs_used p) i"
  shows "find_first_free p = Inr (int_of_size_t i)"
proof -
  from assms have i: "i < pool_max_size p" "\<not> bs_used p ! i" "\<forall>j. 0 \<le> j \<and> j < i \<longrightarrow> bs_used p ! j"
    by (auto simp: lowest_free_nth)
  then have "\<not> bs_all (bs_used p)" using assms by (auto simp: bs_all_nth)
  moreover have "scan_free (bs_used p) [0..<pool_max_size p] = Inr (int_of_size_t i)"
    using i assms by (intro scan_free_found) simp_all
  ultimately show ?thesis by (simp add: find_first_free_def)
qed

lemma find_first_free_cases:
  assumes "length (bs_used p) = pool_max_size p"
  shows "find_first_free p = Inr (- 1) \<or>
         (\<exists>i. lowest_free (bs_used p) i \<and> find_first_free p = Inr (int_of_size_t i))"
proof (cases "bs_all (bs_used p)")
  case True
  then show ?thesis by (simp add: find_first_free_none)
next
  case False
  then obtain i where "lowest_free (bs_used p) i" using lowest_free_exists by blast
  then show ?thesis using find_first_free_found [OF assms] by blast
qed

lemma pool_inv_slot:
  "pool_inv p h \<Longrightarrow> i < pool_max_size p \<Longrightarrow> \<exists>a. v_connections p ! i = Some a \<and> a < length h"
  by (auto simp: pool_inv_def list_all_length valid_ptr_def split: option.splits)

lemma pool_inv_distinct:
  "pool_inv p h \<Longrightarrow> i < pool_max_size p \<Longrightarrow> j < pool_max_size p
     \<Longrightarrow> v_connections p ! i = v_connections p ! j \<Longrightarrow> i = j"
  by (auto simp: pool_inv_def nth_eq_iff_index_eq)

lemma pool_inv_sizes:
  "pool_inv p h \<Longrightarrow> length (bs_used p) = pool_max_size p"
  "pool_inv p h \<Longrightarrow> length (v_connections p) = pool_max_size p"
  by (simp_all add: pool_inv_def)

subsection \<open>Writing the bitmap\<close>

lemma mark_as_busy_in:
  "i < length (bs_used p) \<Longrightarrow> mark_as_busy p i = Inr (p\<lparr>bs_used := (bs_used p)[i := True]\<rparr>)"
  by (simp add: mark_as_busy_def bs_set_def)

lemma mark_as_busy_out: "length (bs_used p) \<le> i \<Longrightarrow> mark_as_busy p i = Inl OutOfRange"
  by (simp add: mark_as_busy_def bs_set_def)

text \<open>
  \<open>mark_as_free\<close> never writes beyond the bitmap: in range it clears the bit, out of
  range it does nothing. Either way the result is the pool with that bit clear.
\<close>

lemma mark_as_free_out: "length (bs_used p) \<le> i \<Longrightarrow> mark_as_free p i = Inr p"
  by (simp add: mark_as_free_def)

lemma mark_as_free_eq: "mark_as_free p i = Inr (p\<lparr>bs_used := (bs_used p)[i := False]\<rparr>)"
proof (cases "i < length (bs_used p)")
  case True
  then show ?thesis by (simp add: mark_as_free_def bs_set_def)
next
  case False
  then have "(bs_used p)[i := False] = bs_used p" by (simp add: list_update_beyond)
  with False show ?thesis by (simp add: mark_as_free_def)
qed


subsection \<open>Borrowing\<close>

lemma borrow_connection_exhausted:
  "bs_all (bs_used p) \<Longrightarrow> borrow_connection srv dc p h = Inr (None, p, h, True)"
  by (simp add: borrow_connection_def find_first_free_def)

lemma get_connection_slot:
  assumes "size_t_of_int idx = k" "k < length (v_connections p)" "v_connections p ! k = Some a"
    "a < length h"
  shows "get_connection srv p h idx dc =
    (if dc \<and> srv p (h ! a) (bind_dn p) (bind_pwd p) \<noteq> SUCCESS
     then Inr (None, h[a := snd (Connection_connect (srv p) (h ! a) (bind_dn p) (bind_pwd p))])
     else Inr (Some a,
               h[a := Connection_mark_as_busy
                        (if dc then snd (Connection_connect (srv p) (h ! a) (bind_dn p) (bind_pwd p))
                         else h ! a)]))"
  using assms by (simp add: get_connection_def slot_at_def deref_def Connection_connect_def)

text \<open>
  A borrow whose index widens to the slot \<open>k\<close> of the pool: the bind is made in the pool
  with the bit of \<open>k\<close> set, and the bit is cleared after a failed bind.
\<close>

lemma borrow_connection_at:
  assumes inv: "pool_inv p h" and f: "find_first_free p = Inr idx" and n1: "idx \<noteq> - 1"
    and k: "size_t_of_int idx = k" "k < pool_max_size p"
    and slot: "v_connections p ! k = Some a"
  shows "borrow_connection srv dc p h =
    (if dc \<and> srv (p\<lparr>bs_used := (bs_used p)[k := True]\<rparr>) (h ! a) (bind_dn p) (bind_pwd p) \<noteq> SUCCESS
     then Inr (None, p\<lparr>bs_used := (bs_used p)[k := False]\<rparr>,
               h[a := snd (Connection_connect (srv (p\<lparr>bs_used := (bs_used p)[k := True]\<rparr>))
                             (h ! a) (bind_dn p) (bind_pwd p))], False)
     else Inr (Some a, p\<lparr>bs_used := (bs_used p)[k := True]\<rparr>,
               h[a := Connection_mark_as_busy
                        (if dc
                         then snd (Connection_connect (srv (p\<lparr>bs_used := (bs_used p)[k := True]\<rparr>))
                                     (h ! a) (bind_dn p) (bind_pwd p))
                         else h ! a)], False))"
proof -
  note sz = pool_inv_sizes [OF inv]
  from pool_inv_slot [OF inv k(2)] slot have a: "a < length h" by auto
  define p1 where "p1 = p\<lparr>bs_used := (bs_used p)[k := True]\<rparr>"
  have b: "mark_as_busy p (size_t_of_int idx) = Inr p1"
    using k sz by (simp add: mark_as_busy_in p1_def)
  have g: "get_connection srv p1 h idx dc =
    (if dc \<and> srv p1 (h ! a) (bind_dn p) (bind_pwd p) \<noteq> SUCCESS
     then Inr (None, h[a := snd (Connection_connect (srv p1) (h ! a) (bind_dn p) (bind_pwd p))])
     else Inr (Some a,
               h[a := Connection_mark_as_busy
                        (if dc then snd (Connection_connect (srv p1) (h ! a) (bind_dn p) (bind_pwd p))
                         else h ! a)]))"
    using get_connection_slot [of idx k p1 a h srv dc] k sz slot a by (simp add: p1_def)
  have fr: "mark_as_free p1 (size_t_of_int idx) = Inr (p\<lparr>bs_used := (bs_used p)[k := False]\<rparr>)"
    using k by (simp add: mark_as_free_eq p1_def)
  have "borrow_connection srv dc p h =
    (if dc \<and> srv p1 (h ! a) (bind_dn p) (bind_pwd p) \<noteq> SUCCESS
     then Inr (None, p\<lparr>bs_used := (bs_used p)[k := False]\<rparr>,
               h[a := snd (Connection_connect (srv p1) (h ! a) (bind_dn p) (bind_pwd p))], False)
     else Inr (Some a, p1,
               h[a := Connection_mark_as_busy
                        (if dc then snd (Connection_connect (srv p1) (h ! a) (bind_dn p) (bind_pwd p))
                         else h ! a)], False))"
    using f n1 b g fr by (simp add: borrow_connection_def)
  then show ?thesis unfolding p1_def .
qed

text \<open>A borrow whose index widens to no slot of the bitmap writes beyond it.\<close>

lemma borrow_connection_abort:
  assumes "find_first_free p = Inr idx" "idx \<noteq> - 1" "length (bs_used p) \<le> size_t_of_int idx"
  shows "borrow_connection srv dc p h = Inl OutOfRange"
  using assms by (simp add: borrow_connection_def mark_as_busy_out)

lemma borrow_connection_free:
  assumes inv: "pool_inv p h" and low: "lowest_free (bs_used p) i"
    and slot: "v_connections p ! i = Some a" and small: "i < 2 ^ 31"
  shows "find_first_free p = Inr (int i) \<and>
    borrow_connection srv dc p h =
    (if dc \<and> srv (p\<lparr>bs_used := (bs_used p)[i := True]\<rparr>) (h ! a) (bind_dn p) (bind_pwd p) \<noteq> SUCCESS
     then Inr (None, p,
               h[a := snd (Connection_connect (srv (p\<lparr>bs_used := (bs_used p)[i := True]\<rparr>))
                             (h ! a) (bind_dn p) (bind_pwd p))], False)
     else Inr (Some a, p\<lparr>bs_used := (bs_used p)[i := True]\<rparr>,
               h[a := Connection_mark_as_busy
                        (if dc
                         then snd (Connection_connect (srv (p\<lparr>bs_used := (bs_used p)[i := True]\<rparr>))
                                     (h ! a) (bind_dn p) (bind_pwd p))
                         else h ! a)], False))"
proof -
  note sz = pool_inv_sizes [OF inv]
  from low have i: "i < pool_max_size p" "\<not> bs_used p ! i" using sz by (auto simp: lowest_free_nth)
  have f: "find_first_free p = Inr (int i)"
    using find_first_free_found [OF sz(1) low] small by (simp add: int_of_size_t_small)
  have "i < 2 ^ 63" using small by (rule less_trans) simp
  then have k: "size_t_of_int (int i) = i" by (rule size_t_of_int_nat)
  have "(bs_used p)[i := False] = bs_used p"
    using i sz by (simp add: list_update_same_conv)
  then have same: "p\<lparr>bs_used := (bs_used p)[i := False]\<rparr> = p" by simp
  show ?thesis
    using f borrow_connection_at [OF inv f _ k i(1) slot, of srv dc] same by simp
qed

subsection \<open>The example pools\<close>


lemma pool_inv_pool2_busy: "pool_inv pool2_busy store2_busy"
  by (simp add: pool_inv_def pool2_busy_def pool2_def store2_busy_def valid_ptr_def)

lemma pool_inv_pool2_full: "pool_inv pool2_full store2_full"
  by (simp add: pool_inv_def pool2_full_def pool2_def store2_full_def valid_ptr_def)

lemma filled_pool_fields:
  "pool_max_size (filled_pool n k) = n"
  "bs_used (filled_pool n k) = replicate k True @ replicate (n - k) False"
  "k \<le> n \<Longrightarrow> length (bs_used (filled_pool n k)) = n"
  "i < n \<Longrightarrow> v_connections (filled_pool n k) ! i = Some i"
  by (simp_all add: filled_pool_def)

lemma filled_store_nth:
  "length (filled_store n k) = n"
  "i < n \<Longrightarrow> filled_store n k ! i =
     (if i < k then Connection_mark_as_busy (fresh_conn i) else fresh_conn i)"
  by (simp_all add: filled_store_def)

lemma filled_pool_inv: "k \<le> n \<Longrightarrow> pool_inv (filled_pool n k) (filled_store n k)"
  by (auto simp: pool_inv_def filled_pool_def filled_store_def list_all_iff valid_ptr_def
      distinct_map)

lemma filled_pool_lowest_free: "k < n \<Longrightarrow> lowest_free (bs_used (filled_pool n k)) k"
  by (simp add: lowest_free_def filled_pool_def nth_append list_all_iff)

lemma bs_count_replicate:
  "bs_count (replicate k True @ replicate m False) = k"
  by (simp add: bs_count_def)


text \<open>
  The pool of \<open>n\<close> slots with \<open>k\<close> of them borrowed is what the constructor and \<open>k\<close>
  borrows make, as long as the indices are in the range of an \<^verbatim>\<open>int\<close>.
\<close>

lemma filled_pool_borrowed:
  assumes "k < n"
  shows "(filled_pool n k)\<lparr>bs_used := (bs_used (filled_pool n k))[k := True]\<rparr> = filled_pool n (Suc k)"
proof -
  have "replicate (n - k) False = False # replicate (n - Suc k) False"
    using assms by (simp add: Suc_diff_Suc flip: replicate_Suc)
  then have "(replicate k True @ replicate (n - k) False)[k := True] =
      replicate k True @ True # replicate (n - Suc k) False"
    by (simp add: list_update_append)
  also have "\<dots> = replicate (Suc k) True @ replicate (n - Suc k) False"
    by (simp add: replicate_append_same)
  finally show ?thesis by (simp add: filled_pool_def)
qed

lemma filled_store_borrowed:
  assumes "k < n"
  shows "(filled_store n k)[k := Connection_mark_as_busy (filled_store n k ! k)] =
         filled_store n (Suc k)"
proof (rule nth_equalityI)
  show "length ((filled_store n k)[k := Connection_mark_as_busy (filled_store n k ! k)]) =
      length (filled_store n (Suc k))"
    by (simp add: filled_store_nth)
  fix i assume "i < length ((filled_store n k)[k := Connection_mark_as_busy (filled_store n k ! k)])"
  then have i: "i < n" by (simp add: filled_store_nth)
  show "(filled_store n k)[k := Connection_mark_as_busy (filled_store n k ! k)] ! i =
      filled_store n (Suc k) ! i"
  proof (cases "i = k")
    case True
    with assms show ?thesis by (simp add: filled_store_nth)
  next
    case False
    with i have "(i < Suc k) = (i < k)" by auto
    with False i show ?thesis by (simp add: filled_store_nth)
  qed
qed

lemma filled_pool_borrow:
  assumes "k < n" "k < 2 ^ 31"
  shows "borrow_connection srv False (filled_pool n k) (filled_store n k) =
         Inr (Some k, filled_pool n (Suc k), filled_store n (Suc k), False)"
proof -
  have inv: "pool_inv (filled_pool n k) (filled_store n k)"
    using assms by (intro filled_pool_inv) simp
  have low: "lowest_free (bs_used (filled_pool n k)) k"
    using assms by (intro filled_pool_lowest_free)
  have slot: "v_connections (filled_pool n k) ! k = Some k"
    using assms by (simp add: filled_pool_fields)
  from borrow_connection_free [OF inv low slot assms(2), of srv False]
  show ?thesis
    by (simp add: filled_pool_borrowed [OF assms(1)] filled_store_borrowed [OF assms(1)])
qed

lemma filled_pool_reachable:
  assumes "k \<le> n" "k \<le> 2 ^ 31"
  shows "run (replicate k (srv, z, Borrow False)) (filled_pool n 0, filled_store n 0) =
         Inr (filled_pool n k, filled_store n k)"
  using assms
proof (induction k)
  case 0
  show ?case by simp
next
  case (Suc k)
  then have k: "k < n" "k < 2 ^ 31" by simp_all
  have "replicate (Suc k) (srv, z, Borrow False) =
      replicate k (srv, z, Borrow False) @ [(srv, z, Borrow False)]"
    by (simp add: replicate_append_same)
  then show ?case
    using Suc filled_pool_borrow [OF k, of srv] by (simp add: run_append)
qed

lemma ctor_loop_lazy:
  assumes "pool_initial_size p = 0"
  shows "for_each (ctor_slot srv) [0..<n] (p\<lparr>v_connections := replicate n None\<rparr>, []) =
         Inr (p\<lparr>v_connections := map Some [0..<n]\<rparr>,
              map (\<lambda>i. Connection_new i (ldap_host p) (ldap_port p) (ldap_fallback_host p)
                          (ldap_fallback_port p) (use_ssl p) (use_tls p)) [0..<n])"
proof -
  define mk where "mk i = Connection_new i (ldap_host p) (ldap_port p) (ldap_fallback_host p)
                          (ldap_fallback_port p) (use_ssl p) (use_tls p)" for i
  define I where "I k s \<longleftrightarrow> k \<le> n \<and>
    s = (p\<lparr>v_connections := map Some [0..<k] @ replicate (n - k) None\<rparr>, map mk [0..<k])" for k s
  have "\<exists>s'. for_each (ctor_slot srv) [0..<n] (p\<lparr>v_connections := replicate n None\<rparr>, []) = Inr s'
          \<and> I n s'"
  proof (rule for_each_upt_inv [where I = I])
    show "I 0 (p\<lparr>v_connections := replicate n None\<rparr>, [])" by (simp add: I_def)
    show "0 \<le> n" by simp
    fix k s assume k: "k < n" and s: "I k s"
    then have s1: "s = (p\<lparr>v_connections := map Some [0..<k] @ replicate (n - k) None\<rparr>, map mk [0..<k])"
      by (simp add: I_def)
    have rep: "replicate (n - k) None = (None :: pool_ptr_t) # replicate (n - Suc k) None"
      using k by (simp add: Suc_diff_Suc flip: replicate_Suc)
    have "k = length (map Some [0..<k])" by simp
    then have "(map Some [0..<k] @ replicate (n - k) None)[k := Some k] =
        map Some [0..<k] @ Some k # replicate (n - Suc k) None"
      unfolding rep by (metis list_update_length)
    then have upd: "(map Some [0..<k] @ replicate (n - k) None)[k := Some k] =
        map Some [0..<Suc k] @ replicate (n - Suc k) None"
      by simp
    have "ctor_slot srv k s =
        Inr (p\<lparr>v_connections := map Some [0..<Suc k] @ replicate (n - Suc k) None\<rparr>,
             map mk [0..<k] @ [mk k])"
      unfolding s1 ctor_slot_def new_slot_def using k upd assms
      by (simp add: make_shared_def mk_def)
    then show "\<exists>s'. ctor_slot srv k s = Inr s' \<and> I (Suc k) s'"
      using k by (simp add: I_def)
  qed
  then show ?thesis by (simp add: I_def mk_def)
qed

lemma Pool_new_filled:
  "Pool_new srv 0 n ''ldap'' 389 ''backup'' 636 False True ''ca'' ''cn=admin'' ''secret'' [] =
     Inr (filled_pool n 0, filled_store n 0)"
proof -
  let ?p = "\<lparr>pool_initial_size = 0, pool_max_size = n,
                ldap_host = ''ldap'', ldap_port = 389,
                ldap_fallback_host = ''backup'', ldap_fallback_port = 636,
                use_ssl = False, use_tls = True, ca_path = ''ca'',
                bind_dn = ''cn=admin'', bind_pwd = ''secret'',
                bs_used = replicate n False, v_connections = [], group_role_mapping = Map.empty\<rparr>"
  have "Pool_new srv 0 n ''ldap'' 389 ''backup'' 636 False True ''ca'' ''cn=admin'' ''secret'' [] =
      for_each (ctor_slot srv) [0..<n] (?p\<lparr>v_connections := replicate n None\<rparr>, [])"
    by (simp add: Pool_new_def resize_def)
  also have "\<dots> = Inr (?p\<lparr>v_connections := map Some [0..<n]\<rparr>,
              map (\<lambda>i. Connection_new i (ldap_host ?p) (ldap_port ?p) (ldap_fallback_host ?p)
                          (ldap_fallback_port ?p) (use_ssl ?p) (use_tls ?p)) [0..<n])"
    by (rule ctor_loop_lazy) simp
  also have "\<dots> = Inr (filled_pool n 0, filled_store n 0)"
    by (simp add: filled_pool_def filled_store_def pool2_def fresh_conn_def)
  finally show ?thesis .
qed

subsection \<open>What a borrow selects\<close>

text \<open>
  C1, as the code has it. In a well-formed pool of at most \<open>2 ^ 31\<close> slots
  \<open>find_first_free\<close> scans the slots from 0 and gives the lowest index whose used bit is
  clear; \<open>borrow_connection\<close> selects that slot: it sets its bit and hands out its handle,
  or gives the null pointer after a failed connect. When all \<open>pool_max_size\<close> bits are
  set there is no such index: \<open>find_first_free\<close> gives \<open>-1\<close> and \<open>borrow_connection\<close>
  returns the null pointer at once, with the pool and the store unchanged and the
  reclamation thread spawned, not awaited.
\<close>

theorem borrow_connection_lowest_free:
  assumes "pool_inv p h" and "pool_max_size p \<le> 2 ^ 31"
  shows "(bs_count (bs_used p) = pool_max_size p \<longrightarrow>
            find_first_free p = Inr (- 1) \<and>
            borrow_connection srv dc p h = Inr (None, p, h, True))
       \<and> (bs_count (bs_used p) \<noteq> pool_max_size p \<longrightarrow> (\<exists>i. lowest_free (bs_used p) i))
       \<and> (lowest_free (bs_used p) i \<and> v_connections p ! i = Some a \<longrightarrow>
            find_first_free p = Inr (int i) \<and>
            borrow_connection srv dc p h =
              (if dc \<and> srv (p\<lparr>bs_used := (bs_used p)[i := True]\<rparr>) (h ! a) (bind_dn p) (bind_pwd p)
                         \<noteq> SUCCESS
               then Inr (None, p,
                         h[a := snd (Connection_connect (srv (p\<lparr>bs_used := (bs_used p)[i := True]\<rparr>))
                                       (h ! a) (bind_dn p) (bind_pwd p))],
                         False)
               else Inr (Some a, p\<lparr>bs_used := (bs_used p)[i := True]\<rparr>,
                         h[a := Connection_mark_as_busy
                                  (if dc
                                   then snd (Connection_connect
                                               (srv (p\<lparr>bs_used := (bs_used p)[i := True]\<rparr>))
                                               (h ! a) (bind_dn p) (bind_pwd p))
                                   else h ! a)],
                         False)))"
proof (intro conjI impI)
  note sz = pool_inv_sizes [OF assms(1)]
  {
    assume "bs_count (bs_used p) = pool_max_size p"
    then have all: "bs_all (bs_used p)" using sz by (simp add: bs_all_count)
    then show "find_first_free p = Inr (- 1)" by (rule find_first_free_none)
    from all show "borrow_connection srv dc p h = Inr (None, p, h, True)"
      by (rule borrow_connection_exhausted)
  }
  {
    assume "bs_count (bs_used p) \<noteq> pool_max_size p"
    then have "\<not> bs_all (bs_used p)" using sz by (simp add: bs_all_count)
    then show "\<exists>i. lowest_free (bs_used p) i" by (rule lowest_free_exists)
  }
  assume low: "lowest_free (bs_used p) i \<and> v_connections p ! i = Some a"
  then have "i < pool_max_size p" using sz by (simp add: lowest_free_nth)
  with assms(2) have small: "i < 2 ^ 31" by simp
  note free = borrow_connection_free [OF assms(1) _ _ small, where a = a and srv = srv and dc = dc]
  from low free show "find_first_free p = Inr (int i)" by simp
  from low free show "borrow_connection srv dc p h =
              (if dc \<and> srv (p\<lparr>bs_used := (bs_used p)[i := True]\<rparr>) (h ! a) (bind_dn p) (bind_pwd p)
                         \<noteq> SUCCESS
               then Inr (None, p,
                         h[a := snd (Connection_connect (srv (p\<lparr>bs_used := (bs_used p)[i := True]\<rparr>))
                                       (h ! a) (bind_dn p) (bind_pwd p))],
                         False)
               else Inr (Some a, p\<lparr>bs_used := (bs_used p)[i := True]\<rparr>,
                         h[a := Connection_mark_as_busy
                                  (if dc
                                   then snd (Connection_connect
                                               (srv (p\<lparr>bs_used := (bs_used p)[i := True]\<rparr>))
                                               (h ! a) (bind_dn p) (bind_pwd p))
                                   else h ! a)],
                         False))"
    by simp
qed

theorem borrow_connection_lowest_free_witness:
  "pool_inv pool2_busy store2_busy
   \<and> pool_max_size pool2_busy \<le> 2 ^ 31
   \<and> lowest_free (bs_used pool2_busy) 1
   \<and> find_first_free pool2_busy = Inr 1
   \<and> borrow_connection accepting False pool2_busy store2_busy =
       Inr (Some 1, pool2_busy\<lparr>bs_used := [True, True]\<rparr>,
            [Connection_mark_as_busy (fresh_conn 0), Connection_mark_as_busy (fresh_conn 1)],
            False)
   \<and> pool_inv pool2_full store2_full
   \<and> pool_max_size pool2_full \<le> 2 ^ 31
   \<and> bs_count (bs_used pool2_full) = pool_max_size pool2_full
   \<and> find_first_free pool2_full = Inr (- 1)
   \<and> borrow_connection accepting True pool2_full store2_full =
       Inr (None, pool2_full, store2_full, True)"
proof -
  have inv: "pool_inv pool2_busy store2_busy" by (rule pool_inv_pool2_busy)
  have sz: "pool_max_size pool2_busy \<le> 2 ^ 31" by (simp add: pool2_busy_def pool2_def)
  have low: "lowest_free (bs_used pool2_busy) 1 \<and> v_connections pool2_busy ! 1 = Some 1"
    by (simp add: pool2_busy_def pool2_def lowest_free_def)
  have free: "find_first_free pool2_busy = Inr (int 1) \<and>
      borrow_connection accepting False pool2_busy store2_busy =
        Inr (Some 1, pool2_busy\<lparr>bs_used := (bs_used pool2_busy)[1 := True]\<rparr>,
             store2_busy[1 := Connection_mark_as_busy (store2_busy ! 1)], False)"
    using borrow_connection_lowest_free
      [OF inv sz, where i = 1 and a = 1 and srv = accepting and dc = False] low
    by simp
  have full: "pool_inv pool2_full store2_full" by (rule pool_inv_pool2_full)
  have szf: "pool_max_size pool2_full \<le> 2 ^ 31" by (simp add: pool2_full_def pool2_def)
  have all: "bs_count (bs_used pool2_full) = pool_max_size pool2_full"
    by (simp add: pool2_full_def pool2_def bs_count_def)
  have none: "find_first_free pool2_full = Inr (- 1) \<and>
      borrow_connection accepting True pool2_full store2_full =
        Inr (None, pool2_full, store2_full, True)"
    using borrow_connection_lowest_free [OF full szf, where srv = accepting and dc = True] all
    by simp
  from free have "find_first_free pool2_busy = Inr 1 \<and>
      borrow_connection accepting False pool2_busy store2_busy =
       Inr (Some 1, pool2_busy\<lparr>bs_used := [True, True]\<rparr>,
            [Connection_mark_as_busy (fresh_conn 0), Connection_mark_as_busy (fresh_conn 1)],
            False)"
    by (simp add: pool2_busy_def pool2_def store2_busy_def)
  with inv sz low full szf all none show ?thesis by simp
qed

text \<open>
  The \<^verbatim>\<open>int\<close> index is why the size matters. The constructor builds a pool of
  \<open>2 ^ 31 + 1\<close> slots, and \<open>2 ^ 31\<close> borrows leave it well formed, with the lowest
  free index \<open>2 ^ 31\<close>. That index narrows to \<open>- 2 ^ 31\<close>: this is what
  \<open>find_first_free\<close> gives, and \<open>borrow_connection\<close>, which only tests for \<open>-1\<close>, passes
  it on to \<open>mark_as_busy\<close>, which writes beyond the bitmap. The free slot is not selected,
  and the call does not return the null pointer either.
\<close>

theorem borrow_connection_beyond_int:
  "Pool_new accepting 0 (2 ^ 31 + 1) ''ldap'' 389 ''backup'' 636 False True ''ca'' ''cn=admin''
     ''secret'' [] = Inr (filled_pool (2 ^ 31 + 1) 0, filled_store (2 ^ 31 + 1) 0)
   \<and> run (replicate (2 ^ 31) (accepting, no_zombie, Borrow False))
         (filled_pool (2 ^ 31 + 1) 0, filled_store (2 ^ 31 + 1) 0) =
       Inr (pool_beyond_int, store_beyond_int)
   \<and> pool_inv pool_beyond_int store_beyond_int
   \<and> lowest_free (bs_used pool_beyond_int) (2 ^ 31)
   \<and> find_first_free pool_beyond_int = Inr (- (2 ^ 31))
   \<and> size_t_of_int (- (2 ^ 31)) = 2 ^ 64 - 2 ^ 31
   \<and> length (bs_used pool_beyond_int) = 2 ^ 31 + 1
   \<and> mark_as_busy pool_beyond_int (size_t_of_int (- (2 ^ 31))) = Inl OutOfRange
   \<and> borrow_connection accepting False pool_beyond_int store_beyond_int = Inl OutOfRange"
proof -
  have inv: "pool_inv pool_beyond_int store_beyond_int"
    unfolding pool_beyond_int_def store_beyond_int_def by (rule filled_pool_inv) simp
  have low: "lowest_free (bs_used pool_beyond_int) (2 ^ 31)"
    unfolding pool_beyond_int_def by (rule filled_pool_lowest_free) simp
  have len: "length (bs_used pool_beyond_int) = 2 ^ 31 + 1"
    using pool_inv_sizes(1) [OF inv] by (simp add: pool_beyond_int_def filled_pool_fields(1))
  have f: "find_first_free pool_beyond_int = Inr (- (2 ^ 31))"
    using find_first_free_found [OF pool_inv_sizes(1) [OF inv] low]
    by (simp only: int_of_size_t_wrap)
  have w: "size_t_of_int (- (2 ^ 31)) = 2 ^ 64 - 2 ^ 31"
    using size_t_of_int_negative [of "- (2 ^ 31)"] by simp
  have out: "length (bs_used pool_beyond_int) \<le> size_t_of_int (- (2 ^ 31))"
    unfolding len w by simp
  have b: "mark_as_busy pool_beyond_int (size_t_of_int (- (2 ^ 31))) = Inl OutOfRange"
    using out by (rule mark_as_busy_out)
  have new: "Pool_new accepting 0 (2 ^ 31 + 1) ''ldap'' 389 ''backup'' 636 False True ''ca''
     ''cn=admin'' ''secret'' [] = Inr (filled_pool (2 ^ 31 + 1) 0, filled_store (2 ^ 31 + 1) 0)"
    by (rule Pool_new_filled)
  have reach: "run (replicate (2 ^ 31) (accepting, no_zombie, Borrow False))
         (filled_pool (2 ^ 31 + 1) 0, filled_store (2 ^ 31 + 1) 0) =
       Inr (pool_beyond_int, store_beyond_int)"
    unfolding pool_beyond_int_def store_beyond_int_def
    by (rule filled_pool_reachable) simp_all
  have "borrow_connection accepting False pool_beyond_int store_beyond_int = Inl OutOfRange"
    using f _ out by (rule borrow_connection_abort) simp
  with new reach inv low f w len b show ?thesis by (intro conjI)
qed



subsection \<open>Returning\<close>

lemma return_connection_snipped:
  assumes "a < length h" "snipped (h ! a)"
  shows "return_connection p h (Some a) = Inr (p, h[a := Connection_mark_as_free (h ! a)], False)"
  using assms
  by (simp add: return_connection_def deref_def Connection_is_snipped_def
      Connection_mark_as_free_def)



text \<open>
  The return of a handle that is not snipped, whatever its index: the bit that is freed
  is the one the narrowed index widens to, and the comparison is one of doubles.
\<close>

lemma return_connection_kept:
  assumes "a < length h" "\<not> snipped (h ! a)"
  shows "return_connection p h (Some a) =
     Inr (p\<lparr>bs_used := (bs_used p)[size_t_of_int (int_of_size_t (idx_pool (h ! a))) := False]\<rparr>,
          h[a := Connection_mark_as_free (h ! a)],
          real_of_int \<lceil>double_times_0_9 (pool_max_size p)\<rceil>
            \<le> double_of_size_t
                 (bs_count ((bs_used p)[size_t_of_int (int_of_size_t (idx_pool (h ! a))) := False])))"
  using assms
  by (simp add: return_connection_def deref_def Connection_is_snipped_def
      Connection_mark_as_free_def Connection_get_idx_pool_def Let_def mark_as_free_eq)

lemma index_round_trip: "i < 2 ^ 31 \<Longrightarrow> size_t_of_int (int_of_size_t i) = i"
proof -
  assume i: "i < 2 ^ 31"
  then have "i < 2 ^ 63" by (rule less_trans) simp
  with i show ?thesis by (simp add: int_of_size_t_small size_t_of_int_nat)
qed


text \<open>
  C5. \<open>mark_as_free\<close> with an index at or beyond the length of the bitmap leaves the pool
  as it is, and whatever the index, it does not write beyond the bitmap. So
  \<open>return_connection\<close> of a live handle never writes the bitmap out of range: it always
  completes, whether the handle is snipped or not and whatever its index is. When the
  handle's index is at or beyond the length of the bitmap, as after a shrink, the pool is
  unchanged (for an index that an \<^verbatim>\<open>int\<close> holds).
\<close>

theorem mark_as_free_out_of_range:
  "(length (bs_used p) \<le> idx \<longrightarrow> mark_as_free p idx = Inr p)
   \<and> (\<exists>p'. mark_as_free p idx = Inr p')
   \<and> (a < length h \<longrightarrow> (\<exists>p' h' sweep. return_connection p h (Some a) = Inr (p', h', sweep)))
   \<and> (a < length h \<and> length (bs_used p) \<le> idx_pool (h ! a) \<and> idx_pool (h ! a) < 2 ^ 31 \<longrightarrow>
        (\<exists>h' sweep. return_connection p h (Some a) = Inr (p, h', sweep)))"
proof (intro conjI impI)
  show "mark_as_free p idx = Inr p" if "length (bs_used p) \<le> idx"
    using that by (rule mark_as_free_out)
  show "\<exists>p'. mark_as_free p idx = Inr p'"
    using mark_as_free_eq [of p idx] by blast
  show "\<exists>p' h' sweep. return_connection p h (Some a) = Inr (p', h', sweep)" if "a < length h"
    using return_connection_snipped [OF that, of p] return_connection_kept [OF that, of p]
    by (cases "snipped (h ! a)") auto
  show "\<exists>h' sweep. return_connection p h (Some a) = Inr (p, h', sweep)"
    if "a < length h \<and> length (bs_used p) \<le> idx_pool (h ! a) \<and> idx_pool (h ! a) < 2 ^ 31"
  proof -
    from that have k: "size_t_of_int (int_of_size_t (idx_pool (h ! a))) = idx_pool (h ! a)"
      by (simp add: index_round_trip)
    from that have "(bs_used p)[idx_pool (h ! a) := False] = bs_used p"
      by (simp add: list_update_beyond)
    then have "p\<lparr>bs_used := (bs_used p)[idx_pool (h ! a) := False]\<rparr> = p" by simp
    with that k show ?thesis
      using return_connection_snipped [of a h p] return_connection_kept [of a h p]
      by (cases "snipped (h ! a)") auto
  qed
qed

text \<open>
  The pool of two slots, both borrowed, is reconfigured to one slot, and the handle of the
  former slot 1 is returned after that: its index 1 is beyond the bitmap of one bit.
\<close>

theorem mark_as_free_out_of_range_witness:
  "run [(accepting, no_zombie, Borrow False), (accepting, no_zombie, Borrow False),
        (accepting, no_zombie,
         Reconfigure 0 1 ''ldap'' 389 ''backup'' 636 False True ''ca'' ''cn=admin'' ''secret'')]
       (pool2, store2) = Inr (pool1_shrunk, store_shrunk)
   \<and> length (bs_used pool1_shrunk) \<le> 1
   \<and> mark_as_free pool1_shrunk 1 = Inr pool1_shrunk
   \<and> 1 < length store_shrunk
   \<and> length (bs_used pool1_shrunk) \<le> idx_pool (store_shrunk ! 1)
   \<and> return_connection pool1_shrunk store_shrunk (Some 1) =
       Inr (pool1_shrunk,
            [Connection_mark_as_busy (fresh_conn 0), Connection_mark_as_snipped (fresh_conn 1)],
            False)"
proof -
  have reach: "run [(accepting, no_zombie, Borrow False), (accepting, no_zombie, Borrow False),
        (accepting, no_zombie,
         Reconfigure 0 1 ''ldap'' 389 ''backup'' 636 False True ''ca'' ''cn=admin'' ''secret'')]
       (pool2, store2) = Inr (pool1_shrunk, store_shrunk)"
    by (simp add: borrow_defs reconfigure_def loop_defs conn_defs int_of_size_t_small
        size_t_of_int_small pool2_def store2_def pool1_shrunk_def store_shrunk_def
        accepting_def no_zombie_def upt_rec)
  have len: "length (bs_used pool1_shrunk) \<le> 1"
    by (simp add: pool1_shrunk_def)
  have h: "1 < length store_shrunk \<and> length (bs_used pool1_shrunk) \<le> idx_pool (store_shrunk ! 1)
      \<and> idx_pool (store_shrunk ! 1) < 2 ^ 31"
    by (simp add: store_shrunk_def pool1_shrunk_def conn_defs)
  from mark_as_free_out_of_range [of pool1_shrunk 1 1 store_shrunk] len h
  have "mark_as_free pool1_shrunk 1 = Inr pool1_shrunk"
    and "\<exists>h' sweep. return_connection pool1_shrunk store_shrunk (Some 1) = Inr (pool1_shrunk, h', sweep)"
    by simp_all
  moreover have "return_connection pool1_shrunk store_shrunk (Some 1) =
       Inr (pool1_shrunk,
            [Connection_mark_as_busy (fresh_conn 0), Connection_mark_as_snipped (fresh_conn 1)],
            False)"
    by (simp add: return_connection_def deref_def store_shrunk_def conn_defs)
  ultimately show ?thesis using reach len h by simp
qed

text \<open>
  C6. Returning a snipped handle marks the handle free and releases it. The pool is
  returned as it was (bitmap, slot vector, \<open>pool_max_size\<close> and configuration), no other
  handle of the store changes, and no reclamation thread is spawned.
\<close>

theorem return_connection_snipped_frame:
  assumes "a < length h" and "Connection_is_snipped (h ! a)"
  shows "return_connection p h (Some a) = Inr (p, h[a := Connection_mark_as_free (h ! a)], False)
       \<and> available (h[a := Connection_mark_as_free (h ! a)] ! a)"
  using assms return_connection_snipped [of a h p]
  by (simp add: Connection_is_snipped_def Connection_mark_as_free_def)

theorem return_connection_snipped_frame_witness:
  "2 < length snipped_store
   \<and> Connection_is_snipped (snipped_store ! 2)
   \<and> return_connection pool2_busy snipped_store (Some 2) =
       Inr (pool2_busy,
            [fresh_conn 0, fresh_conn 1, Connection_mark_as_snipped (fresh_conn 2)], False)"
proof -
  have h: "2 < length snipped_store" "Connection_is_snipped (snipped_store ! 2)"
    by (simp_all add: snipped_store_def Connection_is_snipped_def
        Connection_mark_as_snipped_def)
  from return_connection_snipped_frame [OF h, of pool2_busy]
  have "return_connection pool2_busy snipped_store (Some 2) =
      Inr (pool2_busy, snipped_store[2 := Connection_mark_as_free (snipped_store ! 2)], False)"
    by simp
  moreover have "snipped_store[2 := Connection_mark_as_free (snipped_store ! 2)] =
      [fresh_conn 0, fresh_conn 1, Connection_mark_as_snipped (fresh_conn 2)]"
    by (simp add: snipped_store_def fresh_conn_def Connection_new_def
        Connection_mark_as_snipped_def Connection_mark_as_busy_def Connection_mark_as_free_def)
  ultimately show ?thesis using h by simp
qed





subsection \<open>Facts about well-formed pools\<close>

lemma valid_ptrs_nth:
  "list_all (valid_ptr h) xs \<longleftrightarrow> (\<forall>i < length xs. \<exists>a < length h. xs ! i = Some a)"
  by (auto simp: list_all_length valid_ptr_def split: option.splits)

lemma distinct_nth_inj:
  "distinct xs \<longleftrightarrow> (\<forall>i < length xs. \<forall>j < length xs. xs ! i = xs ! j \<longrightarrow> i = j)"
  by (auto simp: distinct_conv_nth)

lemma pool_inv_nth:
  "pool_inv p h \<longleftrightarrow>
     length (bs_used p) = pool_max_size p \<and> length (v_connections p) = pool_max_size p \<and>
     (\<forall>i < pool_max_size p. \<exists>a < length h. v_connections p ! i = Some a) \<and>
     (\<forall>i < pool_max_size p. \<forall>j < pool_max_size p.
        v_connections p ! i = v_connections p ! j \<longrightarrow> i = j)"
proof (cases "length (v_connections p) = pool_max_size p")
  case True
  show ?thesis
    unfolding pool_inv_def valid_ptrs_nth distinct_nth_inj [of "v_connections p"] True ..
next
  case False
  then show ?thesis by (simp add: pool_inv_def)
qed

text \<open>A step that rewrites one handle of the store and leaves the pool alone.\<close>

lemma connect_slot_step:
  assumes "i < length (v_connections p)" "v_connections p ! i = Some a" "a < length h"
  shows "connect_slot srv i (p, h) =
     Inr (p, h[a := snd (Connection_connect (srv p) (h ! a) (bind_dn p) (bind_pwd p))])"
  using assms by (simp add: connect_slot_def slot_at_def deref_def)

lemma snip_slot_step:
  assumes "i < length (v_connections p)" "v_connections p ! i = Some a" "a < length h"
  shows "snip_slot i (p, h) = Inr (p, h[a := Connection_mark_as_snipped (h ! a)])"
  using assms by (simp add: snip_slot_def slot_at_def deref_def)

lemma configure_slot_step:
  assumes "i < length (v_connections p)" "v_connections p ! i = Some a" "a < length h"
  shows "\<exists>c. configure_slot srv i (p, h) = Inr (p, h[a := c]) \<and>
             idx_pool c = idx_pool (h ! a) \<and> snipped c = snipped (h ! a)"
proof (cases "i < pool_initial_size p")
  case True
  let ?c = "Connection_configure (h ! a) (ldap_host p) (ldap_port p)
              (ldap_fallback_host p) (ldap_fallback_port p) (use_ssl p) (use_tls p)"
  have "configure_slot srv i (p, h) =
      Inr (p, h[a := snd (Connection_connect (srv p) ?c (bind_dn p) (bind_pwd p))])"
    using assms True connect_slot_step [of i p a "h[a := ?c]" srv]
    by (simp add: configure_slot_def slot_at_def deref_def)
  moreover have "idx_pool (snd (Connection_connect (srv p) ?c (bind_dn p) (bind_pwd p))) = idx_pool (h ! a)
      \<and> snipped (snd (Connection_connect (srv p) ?c (bind_dn p) (bind_pwd p))) = snipped (h ! a)"
    by (simp add: Connection_connect_def Connection_configure_def)
  ultimately show ?thesis by blast
next
  case False
  let ?c = "Connection_configure (h ! a) (ldap_host p) (ldap_port p)
              (ldap_fallback_host p) (ldap_fallback_port p) (use_ssl p) (use_tls p)"
  have "configure_slot srv i (p, h) = Inr (p, h[a := ?c])"
    using assms False by (simp add: configure_slot_def slot_at_def deref_def)
  moreover have "idx_pool ?c = idx_pool (h ! a) \<and> snipped ?c = snipped (h ! a)"
    by (simp add: Connection_configure_def)
  ultimately show ?thesis by blast
qed



lemma same_keys_refl: "same_keys h h"
  by (simp add: same_keys_def)

lemma map_update_same:
  assumes "a < length h" "f c = f (h ! a)"
  shows "map f (h[a := c]) = map f h"
proof -
  have "map f (h[a := c]) = (map f h)[a := map f h ! a]"
    using assms by (simp add: map_update)
  then show ?thesis by simp
qed

lemma same_keys_update:
  assumes "same_keys h h1" "a < length h1" "idx_pool c = idx_pool (h1 ! a)" "snipped c = snipped (h1 ! a)"
  shows "same_keys h (h1[a := c])"
  using assms map_update_same [OF assms(2,3)] map_update_same [OF assms(2,4)]
  by (simp add: same_keys_def)

lemma same_keys_nth:
  "same_keys h h' \<Longrightarrow> a < length h \<Longrightarrow> idx_pool (h' ! a) = idx_pool (h ! a) \<and> snipped (h' ! a) = snipped (h ! a)"
  unfolding same_keys_def by (metis nth_map)

lemma connect_loop:
  assumes inv: "pool_inv p h" and k: "k \<le> pool_max_size p"
  shows "\<exists>h'. for_each (connect_slot srv) [0..<k] (p, h) = Inr (p, h') \<and> same_keys h h'"
proof -
  have "\<exists>s'. for_each (connect_slot srv) [0..<k] (p, h) = Inr s' \<and>
          (case s' of (p', h') \<Rightarrow> p' = p \<and> same_keys h h')"
  proof (rule for_each_upt_inv [where I = "\<lambda>i s. case s of (p', h') \<Rightarrow> p' = p \<and> same_keys h h'"])
    show "case (p, h) of (p', h') \<Rightarrow> p' = p \<and> same_keys h h'" by (simp add: same_keys_refl)
    show "0 \<le> k" by simp
    fix i s assume i: "i < k" and s: "case s of (p', h') \<Rightarrow> p' = p \<and> same_keys h h'"
    obtain h1 where s1: "s = (p, h1)" "same_keys h h1" using s by (cases s) auto
    from pool_inv_slot [OF inv, of i] i k obtain a where
      a: "v_connections p ! i = Some a" "a < length h"
      by auto
    have l: "i < length (v_connections p)" "a < length h1"
      using inv i k a s1 by (auto simp: pool_inv_nth same_keys_def)
    have "same_keys h (h1[a := snd (Connection_connect (srv p) (h1 ! a) (bind_dn p) (bind_pwd p))])"
      using s1 l by (intro same_keys_update) (simp_all add: Connection_connect_def)
    then show "\<exists>s'. connect_slot srv i s = Inr s' \<and> (case s' of (p', h') \<Rightarrow> p' = p \<and> same_keys h h')"
      using connect_slot_step [OF l(1) a(1) l(2), of srv] s1 by simp
  qed
  then show ?thesis by auto
qed

lemma configure_loop:
  assumes inv: "pool_inv p h" and k: "k \<le> pool_max_size p"
  shows "\<exists>h'. for_each (configure_slot srv) [0..<k] (p, h) = Inr (p, h') \<and> same_keys h h'"
proof -
  have "\<exists>s'. for_each (configure_slot srv) [0..<k] (p, h) = Inr s' \<and>
          (case s' of (p', h') \<Rightarrow> p' = p \<and> same_keys h h')"
  proof (rule for_each_upt_inv [where I = "\<lambda>i s. case s of (p', h') \<Rightarrow> p' = p \<and> same_keys h h'"])
    show "case (p, h) of (p', h') \<Rightarrow> p' = p \<and> same_keys h h'" by (simp add: same_keys_refl)
    show "0 \<le> k" by simp
    fix i s assume i: "i < k" and s: "case s of (p', h') \<Rightarrow> p' = p \<and> same_keys h h'"
    obtain h1 where s1: "s = (p, h1)" "same_keys h h1" using s by (cases s) auto
    from pool_inv_slot [OF inv, of i] i k obtain a where
      a: "v_connections p ! i = Some a" "a < length h"
      by auto
    have l: "i < length (v_connections p)" "a < length h1"
      using inv i k a s1 by (auto simp: pool_inv_nth same_keys_def)
    from configure_slot_step [OF l(1) a(1) l(2), of srv] obtain c where
      c: "configure_slot srv i (p, h1) = Inr (p, h1[a := c])"
        "idx_pool c = idx_pool (h1 ! a)" "snipped c = snipped (h1 ! a)"
      by blast
    have "same_keys h (h1[a := c])"
      using s1 l c by (intro same_keys_update) simp_all
    then show "\<exists>s'. configure_slot srv i s = Inr s' \<and> (case s' of (p', h') \<Rightarrow> p' = p \<and> same_keys h h')"
      using c s1 by simp
  qed
  then show ?thesis by auto
qed

text \<open>The second reconnect loop runs past the slot vector when asked for more eager
  connections than there are slots.\<close>

lemma connect_loop_overrun:
  assumes inv: "pool_inv p h" and k: "pool_max_size p < k"
  shows "for_each (connect_slot srv) [0..<k] (p, h) = Inl OutOfRange"
proof -
  from connect_loop [OF inv order_refl, of srv] obtain h' where
    h': "for_each (connect_slot srv) [0..<pool_max_size p] (p, h) = Inr (p, h')" by blast
  have "[0..<k] = [0..<pool_max_size p] @ pool_max_size p # [Suc (pool_max_size p)..<k]"
    using k by (metis upt_add_eq_append upt_conv_Cons le0 less_imp_add_positive add.commute
        less_imp_le_nat le_add_diff_inverse)
  moreover have "connect_slot srv (pool_max_size p) (p, h') = Inl OutOfRange"
    using inv by (simp add: connect_slot_def slot_at_def pool_inv_def)
  ultimately show ?thesis using h' by (simp add: for_each_append)
qed

lemma snip_loop:
  assumes slots: "\<forall>i < n. \<exists>a < length h. v_connections p ! i = Some a"
    and n: "n \<le> length (v_connections p)" and lo: "lo \<le> n"
  shows "\<exists>h'. for_each snip_slot [lo..<n] (p, h) = Inr (p, h') \<and> length h' = length h \<and>
     (\<forall>a < length h. h' ! a =
        (if \<exists>i. lo \<le> i \<and> i < n \<and> v_connections p ! i = Some a
         then Connection_mark_as_snipped (h ! a) else h ! a))"
proof -
  define hit where "hit k a \<longleftrightarrow> (\<exists>i. lo \<le> i \<and> i < k \<and> v_connections p ! i = Some a)" for k a
  define I where "I k s \<longleftrightarrow>
    lo \<le> k \<and> fst s = p \<and> length (snd s) = length h \<and>
      (\<forall>a < length h. snd s ! a =
        (if hit k a then Connection_mark_as_snipped (h ! a) else h ! a))" for k s
  have hit_lo: "\<not> hit lo a" for a by (simp add: hit_def)
  have hit_Suc: "hit (Suc k) b \<longleftrightarrow> hit k b \<or> (lo \<le> k \<and> v_connections p ! k = Some b)" for k b
    unfolding hit_def by (metis less_Suc_eq)
  have "\<exists>s'. for_each snip_slot [lo..<n] (p, h) = Inr s' \<and> I n s'"
  proof (rule for_each_upt_inv [where I = I])
    show "I lo (p, h)" by (simp add: I_def hit_lo)
    show "lo \<le> n" by (rule lo)
    fix k s assume k: "k < n" and s: "I k s"
    obtain p1 h1 where s1: "s = (p1, h1)" by (cases s)
    with s have p1: "p1 = p" and len: "length h1 = length h" and lok: "lo \<le> k"
      and h1: "\<forall>a < length h. h1 ! a =
        (if hit k a then Connection_mark_as_snipped (h ! a) else h ! a)"
      by (simp_all add: I_def)
    from slots k obtain a where a: "a < length h" "v_connections p ! k = Some a" by blast
    have step: "snip_slot k (p, h1) = Inr (p, h1[a := Connection_mark_as_snipped (h1 ! a)])"
      using snip_slot_step [of k p a h1] k n a len by simp
    have idem: "Connection_mark_as_snipped (Connection_mark_as_snipped c) = Connection_mark_as_snipped c" for c
      by (simp add: Connection_mark_as_snipped_def)
    have "h1[a := Connection_mark_as_snipped (h1 ! a)] ! b =
        (if hit (Suc k) b then Connection_mark_as_snipped (h ! b) else h ! b)" if b: "b < length h" for b
    proof (cases "b = a")
      case True
      have now: "hit (Suc k) a" using lok a by (simp add: hit_Suc)
      have "h1 ! a = (if hit k a then Connection_mark_as_snipped (h ! a) else h ! a)"
        using h1 a by simp
      then have "Connection_mark_as_snipped (h1 ! a) = Connection_mark_as_snipped (h ! a)"
        by (simp add: idem)
      with True now a len show ?thesis by simp
    next
      case False
      then have "hit (Suc k) b = hit k b" using a by (simp add: hit_Suc)
      with False h1 b len show ?thesis by simp
    qed
    then have "I (Suc k) (p, h1[a := Connection_mark_as_snipped (h1 ! a)])"
      using lok len by (simp add: I_def)
    with step s1 p1 show "\<exists>s'. snip_slot k s = Inr s' \<and> I (Suc k) s'" by simp
  qed
  then obtain p' h' where "for_each snip_slot [lo..<n] (p, h) = Inr (p', h')" "I n (p', h')"
    by auto
  then show ?thesis unfolding I_def hit_def by simp
qed

text \<open>The loop that fills the slots appended by a grow.\<close>

lemma new_slot_loop:
  assumes "length xs = m" and "m \<le> n"
  shows "for_each (new_slot host port fhost fport ssl tls) [m..<n]
           (p\<lparr>v_connections := xs @ replicate (n - m) None\<rparr>, h) =
         Inr (p\<lparr>v_connections := xs @ map Some [length h..<length h + (n - m)]\<rparr>,
              h @ map (\<lambda>i. Connection_new i host port fhost fport ssl tls) [m..<n])"
proof -
  define I where "I k s \<longleftrightarrow> m \<le> k \<and> k \<le> n \<and>
    s = (p\<lparr>v_connections := xs @ map Some [length h..<length h + (k - m)] @ replicate (n - k) None\<rparr>,
         h @ map (\<lambda>i. Connection_new i host port fhost fport ssl tls) [m..<k])" for k s
  have "\<exists>s'. for_each (new_slot host port fhost fport ssl tls) [m..<n]
           (p\<lparr>v_connections := xs @ replicate (n - m) None\<rparr>, h) = Inr s' \<and> I n s'"
  proof (rule for_each_upt_inv [where I = I])
    show "I m (p\<lparr>v_connections := xs @ replicate (n - m) None\<rparr>, h)"
      using assms by (simp add: I_def)
    show "m \<le> n" by (rule assms)
    fix k s assume k: "k < n" and s: "I k s"
    then have mk: "m \<le> k" and s1: "s =
        (p\<lparr>v_connections := xs @ map Some [length h..<length h + (k - m)] @ replicate (n - k) None\<rparr>,
         h @ map (\<lambda>i. Connection_new i host port fhost fport ssl tls) [m..<k])"
      by (simp_all add: I_def)
    let ?ys = "map Some [length h..<length h + (k - m)]"
    let ?h1 = "h @ map (\<lambda>i. Connection_new i host port fhost fport ssl tls) [m..<k]"
    have rep: "replicate (n - k) None = (None :: pool_ptr_t) # replicate (n - Suc k) None"
      using k by (simp add: Suc_diff_Suc flip: replicate_Suc)
    have pos: "k = length (xs @ ?ys)" using assms mk by simp
    have upd: "(xs @ ?ys @ replicate (n - k) None)[k := Some (length ?h1)] =
        xs @ map Some [length h..<length h + (Suc k - m)] @ replicate (n - Suc k) None"
    proof -
      have "(xs @ ?ys @ replicate (n - k) None)[k := Some (length ?h1)] =
          (xs @ ?ys) @ Some (length ?h1) # replicate (n - Suc k) None"
        unfolding rep using pos
        by (metis append.assoc list_update_length)
      moreover have "length ?h1 = length h + (k - m)" using mk by simp
      moreover have "[length h..<length h + (Suc k - m)] = [length h..<length h + (k - m)] @ [length h + (k - m)]"
        using mk by (simp add: Suc_diff_le)
      ultimately show ?thesis by simp
    qed
    have lt: "k < length (xs @ ?ys @ replicate (n - k) None)"
      using assms mk k by simp
    have "new_slot host port fhost fport ssl tls k s =
        Inr (p\<lparr>v_connections := xs @ map Some [length h..<length h + (Suc k - m)] @ replicate (n - Suc k) None\<rparr>,
             ?h1 @ [Connection_new k host port fhost fport ssl tls])"
      unfolding s1 new_slot_def using lt upd by (simp add: make_shared_def)
    moreover have "?h1 @ [Connection_new k host port fhost fport ssl tls] =
        h @ map (\<lambda>i. Connection_new i host port fhost fport ssl tls) [m..<Suc k]"
      using mk by simp
    ultimately show "\<exists>s'. new_slot host port fhost fport ssl tls k s = Inr s' \<and> I (Suc k) s'"
      using mk k by (simp add: I_def)
  qed
  then show ?thesis by (simp add: I_def)
qed

lemma pool_inv_fields:
  assumes "pool_inv p h" "length h \<le> length h'"
    "bs_used p' = bs_used p" "v_connections p' = v_connections p" "pool_max_size p' = pool_max_size p"
  shows "pool_inv p' h'"
  using assms by (auto simp: pool_inv_nth)

lemma pool_inv_store:
  "pool_inv p h \<Longrightarrow> length h \<le> length h' \<Longrightarrow> pool_inv p h'"
  by (rule pool_inv_fields) simp_all

lemma pool_inv_bits:
  "pool_inv p h \<Longrightarrow> length used = length (bs_used p) \<Longrightarrow> length h \<le> length h'
     \<Longrightarrow> pool_inv (p\<lparr>bs_used := used\<rparr>) h'"
  by (auto simp: pool_inv_nth)

lemma resize_shrink: "n \<le> length xs \<Longrightarrow> resize xs n d = take n xs"
  by (simp add: resize_def)

lemma resize_grow: "length xs \<le> n \<Longrightarrow> resize xs n d = xs @ replicate (n - length xs) d"
  by (simp add: resize_def)

lemma resize_pool_same:
  "nm = pool_max_size p \<Longrightarrow> resize_pool nm host port fhost fport ssl tls (p, h) = Inr (p, h)"
  by (simp add: resize_pool_def)

lemma resize_pool_shrink:
  assumes inv: "pool_inv p h" and nm: "nm < pool_max_size p"
  shows "\<exists>h'. resize_pool nm host port fhost fport ssl tls (p, h) =
           Inr (p\<lparr>bs_used := take nm (bs_used p), v_connections := take nm (v_connections p),
                  pool_max_size := nm\<rparr>, h') \<and>
         length h' = length h \<and>
         (\<forall>a < length h. h' ! a =
            (if \<exists>i. nm \<le> i \<and> i < pool_max_size p \<and> v_connections p ! i = Some a
             then Connection_mark_as_snipped (h ! a) else h ! a))"
proof -
  let ?p1 = "p\<lparr>bs_used := take nm (bs_used p)\<rparr>"
  have sz: "length (bs_used p) = pool_max_size p" "length (v_connections p) = pool_max_size p"
    using inv by (simp_all add: pool_inv_def)
  have slots: "\<forall>i < pool_max_size p. \<exists>a < length h. v_connections ?p1 ! i = Some a"
    using inv by (simp add: pool_inv_nth)
  from snip_loop [of "pool_max_size p" h ?p1 nm, OF slots] sz nm
  obtain h' where h': "for_each snip_slot [nm..<pool_max_size p] (?p1, h) = Inr (?p1, h')"
    "length h' = length h"
    "\<forall>a < length h. h' ! a =
        (if \<exists>i. nm \<le> i \<and> i < pool_max_size p \<and> v_connections p ! i = Some a
         then Connection_mark_as_snipped (h ! a) else h ! a)"
    by auto
  have "resize_pool nm host port fhost fport ssl tls (p, h) =
           Inr (p\<lparr>bs_used := take nm (bs_used p), v_connections := take nm (v_connections p),
                  pool_max_size := nm\<rparr>, h')"
    using nm sz h'(1) by (simp add: resize_pool_def resize_shrink)
  with h'(2,3) show ?thesis by blast
qed

lemma resize_pool_grow:
  assumes inv: "pool_inv p h" and nm: "pool_max_size p < nm"
  shows "resize_pool nm host port fhost fport ssl tls (p, h) =
           Inr (p\<lparr>bs_used := bs_used p @ replicate (nm - pool_max_size p) False,
                  v_connections := v_connections p @
                    map Some [length h..<length h + (nm - pool_max_size p)],
                  pool_max_size := nm\<rparr>,
                h @ map (\<lambda>i. Connection_new i host port fhost fport ssl tls)
                      [pool_max_size p..<nm])"
proof -
  let ?p1 = "p\<lparr>bs_used := bs_used p @ replicate (nm - pool_max_size p) False\<rparr>"
  have sz: "length (bs_used p) = pool_max_size p" "length (v_connections p) = pool_max_size p"
    using inv by (simp_all add: pool_inv_def)
  have loop: "for_each (new_slot host port fhost fport ssl tls) [pool_max_size p..<nm]
           (?p1\<lparr>v_connections := v_connections p @ replicate (nm - pool_max_size p) None\<rparr>, h) =
         Inr (?p1\<lparr>v_connections := v_connections p @
                  map Some [length h..<length h + (nm - pool_max_size p)]\<rparr>,
              h @ map (\<lambda>i. Connection_new i host port fhost fport ssl tls) [pool_max_size p..<nm])"
    using nm sz by (intro new_slot_loop) simp_all
  show ?thesis
    using nm sz loop by (simp add: resize_pool_def resize_grow)
qed

lemma valid_ptr_mono: "valid_ptr h r \<Longrightarrow> length h \<le> length h' \<Longrightarrow> valid_ptr h' r"
  by (auto simp: valid_ptr_def split: option.splits)

lemma pool_inv_shrink:
  assumes "pool_inv p h" "nm \<le> pool_max_size p" "length h \<le> length h'"
  shows "pool_inv (p\<lparr>bs_used := take nm (bs_used p), v_connections := take nm (v_connections p),
                  pool_max_size := nm\<rparr>) h'"
proof -
  have "list_all (valid_ptr h') (take nm (v_connections p))"
    using assms valid_ptr_mono [of h _ h']
    by (auto simp: pool_inv_def list_all_iff dest: in_set_takeD)
  then show ?thesis
    using assms by (simp add: pool_inv_def)
qed

lemma pool_inv_grow:
  assumes "pool_inv p h" "pool_max_size p \<le> nm" "length h' = length h + (nm - pool_max_size p)"
  shows "pool_inv (p\<lparr>bs_used := bs_used p @ replicate (nm - pool_max_size p) False,
                  v_connections := v_connections p @
                    map Some [length h..<length h + (nm - pool_max_size p)],
                  pool_max_size := nm\<rparr>) h'"
proof -
  have old: "list_all (valid_ptr h') (v_connections p)"
    using assms by (auto simp: pool_inv_def list_all_iff valid_ptr_def split: option.splits)
  have new: "list_all (valid_ptr h') (map Some [length h..<length h + (nm - pool_max_size p)])"
    using assms by (auto simp: list_all_iff valid_ptr_def)
  have "set (v_connections p) \<inter> set (map Some [length h..<length h + (nm - pool_max_size p)]) = {}"
    using assms by (auto simp: pool_inv_def list_all_iff valid_ptr_def split: option.splits)
  moreover have "distinct (map Some [length h..<length h + (nm - pool_max_size p)])"
    by (simp add: distinct_map)
  ultimately show ?thesis
    using assms old new by (simp add: pool_inv_def)
qed

subsection \<open>The zombie sweep\<close>

lemma zombie_body_step:
  assumes "i < length (bs_used p)" "i < length (v_connections p)"
    "v_connections p ! i = Some a" "a < length h"
  shows "zombie_body z i (p, h) =
     Inr (if bs_used p ! i \<and> z (h ! a)
          then (p\<lparr>bs_used := (bs_used p)[i := False]\<rparr>, h[a := Connection_mark_as_free (h ! a)])
          else (p, h))"
  using assms by (simp add: zombie_body_def bs_test_def slot_at_def deref_def mark_as_free_eq)

lemma zombie_loop:
  assumes inv: "pool_inv p h" and k: "k \<le> pool_max_size p"
  shows "\<exists>used' h'.
     for_each (zombie_body z) [0..<k] (p, h) = Inr (p\<lparr>bs_used := used'\<rparr>, h') \<and>
     length used' = length (bs_used p) \<and> length h' = length h \<and>
     (\<forall>i < pool_max_size p. \<forall>a. v_connections p ! i = Some a \<longrightarrow>
        (if i < k \<and> bs_used p ! i \<and> z (h ! a)
         then \<not> used' ! i \<and> h' ! a = Connection_mark_as_free (h ! a)
         else used' ! i = bs_used p ! i \<and> h' ! a = h ! a)) \<and>
     (\<forall>a < length h. Some a \<notin> set (v_connections p) \<longrightarrow> h' ! a = h ! a)"
  using k
proof (induction k)
  case 0
  show ?case
    by (rule exI [of _ "bs_used p"], rule exI [of _ h]) simp
next
  case (Suc k)
  then have k: "k < pool_max_size p" by simp
  with Suc obtain used1 h1 where
    run: "for_each (zombie_body z) [0..<k] (p, h) = Inr (p\<lparr>bs_used := used1\<rparr>, h1)"
    and len: "length used1 = length (bs_used p)" "length h1 = length h"
    and slots: "\<forall>i < pool_max_size p. \<forall>a. v_connections p ! i = Some a \<longrightarrow>
        (if i < k \<and> bs_used p ! i \<and> z (h ! a)
         then \<not> used1 ! i \<and> h1 ! a = Connection_mark_as_free (h ! a)
         else used1 ! i = bs_used p ! i \<and> h1 ! a = h ! a)"
    and others: "\<forall>a < length h. Some a \<notin> set (v_connections p) \<longrightarrow> h1 ! a = h ! a"
    by auto
  from pool_inv_slot [OF inv k] obtain a where a: "v_connections p ! k = Some a" "a < length h"
    by auto
  have sz: "length (bs_used p) = pool_max_size p" "length (v_connections p) = pool_max_size p"
    using inv by (simp_all add: pool_inv_def)
  from slots k a have cur: "used1 ! k = bs_used p ! k" "h1 ! a = h ! a" by auto
  define used2 where "used2 = (if bs_used p ! k \<and> z (h ! a) then used1[k := False] else used1)"
  define h2 where
    "h2 = (if bs_used p ! k \<and> z (h ! a) then h1[a := Connection_mark_as_free (h ! a)] else h1)"
  have step: "zombie_body z k (p\<lparr>bs_used := used1\<rparr>, h1) = Inr (p\<lparr>bs_used := used2\<rparr>, h2)"
    using zombie_body_step [of k "p\<lparr>bs_used := used1\<rparr>" a h1 z] k a len sz cur
    by (simp add: used2_def h2_def)
  have other_slot: "i \<noteq> k \<Longrightarrow> v_connections p ! i = Some b \<Longrightarrow> b \<noteq> a"
    if "i < pool_max_size p" for i b
    using pool_inv_distinct [OF inv that k] a by auto
  show ?case
  proof (intro exI conjI)
    show "for_each (zombie_body z) [0..<Suc k] (p, h) = Inr (p\<lparr>bs_used := used2\<rparr>, h2)"
      using run step by (simp add: for_each_append)
    show "length used2 = length (bs_used p)" using len by (simp add: used2_def)
    show "length h2 = length h" using len by (simp add: h2_def)
    show "\<forall>i < pool_max_size p. \<forall>b. v_connections p ! i = Some b \<longrightarrow>
        (if i < Suc k \<and> bs_used p ! i \<and> z (h ! b)
         then \<not> used2 ! i \<and> h2 ! b = Connection_mark_as_free (h ! b)
         else used2 ! i = bs_used p ! i \<and> h2 ! b = h ! b)"
    proof (intro allI impI)
      fix i b assume i: "i < pool_max_size p" and b: "v_connections p ! i = Some b"
      show "if i < Suc k \<and> bs_used p ! i \<and> z (h ! b)
         then \<not> used2 ! i \<and> h2 ! b = Connection_mark_as_free (h ! b)
         else used2 ! i = bs_used p ! i \<and> h2 ! b = h ! b"
      proof (cases "i = k")
        case True
        with a b have "b = a" by simp
        with True cur k a len sz show ?thesis by (simp add: used2_def h2_def)
      next
        case False
        with other_slot [OF i] b have "b \<noteq> a" by simp
        with False slots i b show ?thesis by (auto simp: less_Suc_eq used2_def h2_def)
      qed
    qed
    show "\<forall>b < length h. Some b \<notin> set (v_connections p) \<longrightarrow> h2 ! b = h ! b"
    proof (intro allI impI)
      fix b assume b: "b < length h" "Some b \<notin> set (v_connections p)"
      have "Some a \<in> set (v_connections p)" using a k sz by (metis nth_mem)
      with b have "b \<noteq> a" by auto
      with others b show "h2 ! b = h ! b" by (simp add: h2_def)
    qed
  qed
qed


lemma zombie_control_sweep:
  assumes inv: "pool_inv p h"
  shows "\<exists>used' h'.
     zombie_control z p h = Inr (p\<lparr>bs_used := used'\<rparr>, h') \<and>
     length used' = pool_max_size p \<and> length h' = length h \<and>
     (\<forall>i < pool_max_size p. \<forall>a. v_connections p ! i = Some a \<longrightarrow>
        (if bs_used p ! i \<and> z (h ! a)
         then \<not> used' ! i \<and> h' ! a = Connection_mark_as_free (h ! a)
         else used' ! i = bs_used p ! i \<and> h' ! a = h ! a)) \<and>
     (\<forall>a < length h. Some a \<notin> set (v_connections p) \<longrightarrow> h' ! a = h ! a)"
proof -
  from zombie_loop [OF inv order_refl, of z] obtain used' h' where
    r: "for_each (zombie_body z) [0..<pool_max_size p] (p, h) = Inr (p\<lparr>bs_used := used'\<rparr>, h')"
      "length used' = length (bs_used p)" "length h' = length h"
      "\<forall>i < pool_max_size p. \<forall>a. v_connections p ! i = Some a \<longrightarrow>
        (if i < pool_max_size p \<and> bs_used p ! i \<and> z (h ! a)
         then \<not> used' ! i \<and> h' ! a = Connection_mark_as_free (h ! a)
         else used' ! i = bs_used p ! i \<and> h' ! a = h ! a)"
      "\<forall>a < length h. Some a \<notin> set (v_connections p) \<longrightarrow> h' ! a = h ! a"
    by blast
  have "\<forall>i < pool_max_size p. \<forall>a. v_connections p ! i = Some a \<longrightarrow>
        (if bs_used p ! i \<and> z (h ! a)
         then \<not> used' ! i \<and> h' ! a = Connection_mark_as_free (h ! a)
         else used' ! i = bs_used p ! i \<and> h' ! a = h ! a)"
    using r(4) by simp
  with r(1,2,3,5) pool_inv_sizes(1) [OF inv] show ?thesis
    unfolding zombie_control_def by (intro exI [of _ used'] exI [of _ h']) simp
qed

subsection \<open>Construction\<close>

lemma ctor_loop:
  "\<exists>h'. for_each (ctor_slot srv) [0..<n] (p\<lparr>v_connections := replicate n None\<rparr>, h) =
          Inr (p\<lparr>v_connections := map Some [length h..<length h + n]\<rparr>, h') \<and>
        length h' = length h + n \<and> take (length h) h' = h"
proof -
  define I where "I k s \<longleftrightarrow> k \<le> n \<and>
    fst s = p\<lparr>v_connections := map Some [length h..<length h + k] @ replicate (n - k) None\<rparr> \<and>
    length (snd s) = length h + k \<and> take (length h) (snd s) = h" for k s
  have "\<exists>s'. for_each (ctor_slot srv) [0..<n] (p\<lparr>v_connections := replicate n None\<rparr>, h) = Inr s'
          \<and> I n s'"
  proof (rule for_each_upt_inv [where I = I])
    show "I 0 (p\<lparr>v_connections := replicate n None\<rparr>, h)" by (simp add: I_def)
    show "0 \<le> n" by simp
    fix k s assume k: "k < n" and s: "I k s"
    obtain p1 h1 where s1: "s = (p1, h1)" by (cases s)
    let ?ys = "map Some [length h..<length h + k]"
    from s s1 have p1: "p1 = p\<lparr>v_connections := ?ys @ replicate (n - k) None\<rparr>"
      and len: "length h1 = length h + k" and old: "take (length h) h1 = h"
      by (simp_all add: I_def)
    have rep: "replicate (n - k) None = (None :: pool_ptr_t) # replicate (n - Suc k) None"
      using k by (simp add: Suc_diff_Suc flip: replicate_Suc)
    have upd: "(?ys @ replicate (n - k) None)[k := Some (length h1)] =
        map Some [length h..<length h + Suc k] @ replicate (n - Suc k) None"
    proof -
      have "k = length ?ys" by simp
      then have "(?ys @ replicate (n - k) None)[k := Some (length h1)] =
          ?ys @ Some (length h1) # replicate (n - Suc k) None"
        unfolding rep by (metis list_update_length)
      with len show ?thesis by simp
    qed
    let ?c = "Connection_new k (ldap_host p) (ldap_port p) (ldap_fallback_host p)
                (ldap_fallback_port p) (use_ssl p) (use_tls p)"
    let ?p2 = "p\<lparr>v_connections := map Some [length h..<length h + Suc k] @ replicate (n - Suc k) None\<rparr>"
    have new: "new_slot (ldap_host p1) (ldap_port p1) (ldap_fallback_host p1)
              (ldap_fallback_port p1) (use_ssl p1) (use_tls p1) k (p1, h1) = Inr (?p2, h1 @ [?c])"
      using k upd unfolding p1 new_slot_def by (simp add: make_shared_def)
    have slot: "k < length (v_connections ?p2)" "v_connections ?p2 ! k = Some (length h1)"
      "length h1 < length (h1 @ [?c])"
      using k len by (simp_all add: nth_append)
    have "\<exists>h2. ctor_slot srv k (p1, h1) = Inr (?p2, h2) \<and> length h2 = Suc (length h1) \<and>
            take (length h) h2 = h"
    proof (cases "k < pool_initial_size p")
      case True
      then have "ctor_slot srv k (p1, h1) = connect_slot srv k (?p2, h1 @ [?c])"
        using new by (simp add: ctor_slot_def)
      also have "\<dots> = Inr (?p2, (h1 @ [?c])[length h1 :=
                   snd (Connection_connect (srv ?p2) ((h1 @ [?c]) ! length h1) (bind_dn ?p2) (bind_pwd ?p2))])"
        by (rule connect_slot_step [OF slot])
      finally show ?thesis using old len by auto
    next
      case False
      then have "ctor_slot srv k (p1, h1) = Inr (?p2, h1 @ [?c])"
        using new by (simp add: ctor_slot_def)
      then show ?thesis using old len by auto
    qed
    then show "\<exists>s'. ctor_slot srv k s = Inr s' \<and> I (Suc k) s'"
      using s1 k len by (auto simp: I_def)
  qed
  then obtain p' h' where "for_each (ctor_slot srv) [0..<n] (p\<lparr>v_connections := replicate n None\<rparr>, h)
      = Inr (p', h')" "I n (p', h')" by auto
  then show ?thesis by (simp add: I_def)
qed

lemma Pool_new_inv:
  "\<exists>p h'. Pool_new srv ni nm host port fhost fport ssl tls ca dn pwd h = Inr (p, h') \<and>
      pool_inv p h' \<and> pool_max_size p = nm \<and> bs_used p = replicate nm False \<and>
      v_connections p = map Some [length h..<length h + nm] \<and>
      length h' = length h + nm \<and> take (length h) h' = h"
proof -
  let ?p = "\<lparr>pool_initial_size = ni, pool_max_size = nm,
                ldap_host = host, ldap_port = port,
                ldap_fallback_host = fhost, ldap_fallback_port = fport,
                use_ssl = ssl, use_tls = tls, ca_path = ca,
                bind_dn = dn, bind_pwd = pwd,
                bs_used = replicate nm False, v_connections = [], group_role_mapping = Map.empty\<rparr>"
  from ctor_loop [of srv nm ?p h] obtain h' where
    h': "for_each (ctor_slot srv) [0..<nm] (?p\<lparr>v_connections := replicate nm None\<rparr>, h) =
          Inr (?p\<lparr>v_connections := map Some [length h..<length h + nm]\<rparr>, h')"
       "length h' = length h + nm" "take (length h) h' = h"
    by blast
  have "Pool_new srv ni nm host port fhost fport ssl tls ca dn pwd h =
      Inr (?p\<lparr>v_connections := map Some [length h..<length h + nm]\<rparr>, h')"
    using h'(1) by (simp add: Pool_new_def resize_def)
  moreover have "pool_inv (?p\<lparr>v_connections := map Some [length h..<length h + nm]\<rparr>) h'"
    using h'(2) by (auto simp: pool_inv_def list_all_iff valid_ptr_def distinct_map)
  ultimately show ?thesis using h'(2,3) by simp
qed

subsection \<open>Reconfiguration\<close>

lemma reconnect_loops:
  assumes inv: "pool_inv p h"
  shows "if ni \<le> pool_max_size p
         then \<exists>h'. ebind (for_each (configure_slot srv) [0..<pool_max_size p] (p, h))
                     (for_each (connect_slot srv) [0..<ni]) = Inr (p, h') \<and> same_keys h h'
         else ebind (for_each (configure_slot srv) [0..<pool_max_size p] (p, h))
                     (for_each (connect_slot srv) [0..<ni]) = Inl OutOfRange"
proof -
  from configure_loop [OF inv order_refl, of srv] obtain h1 where
    h1: "for_each (configure_slot srv) [0..<pool_max_size p] (p, h) = Inr (p, h1)" "same_keys h h1"
    by blast
  then have inv1: "pool_inv p h1"
    using inv by (auto intro: pool_inv_store simp: same_keys_def)
  show ?thesis
  proof (cases "ni \<le> pool_max_size p")
    case True
    from connect_loop [OF inv1 True, of srv] obtain h2 where
      h2: "for_each (connect_slot srv) [0..<ni] (p, h1) = Inr (p, h2)" "same_keys h1 h2"
      by blast
    with h1 have "same_keys h h2" by (simp add: same_keys_def)
    with True h1 h2 show ?thesis by simp
  next
    case False
    then show ?thesis
      using h1 connect_loop_overrun [OF inv1, of ni srv] by simp
  qed
qed



lemma with_config_fields:
  "bs_used (with_config ni host port fhost fport ssl tls ca dn pwd p) = bs_used p"
  "v_connections (with_config ni host port fhost fport ssl tls ca dn pwd p) = v_connections p"
  "pool_max_size (with_config ni host port fhost fport ssl tls ca dn pwd p) = pool_max_size p"
  "group_role_mapping (with_config ni host port fhost fport ssl tls ca dn pwd p) =
     group_role_mapping p"
  by (simp_all add: with_config_def)

lemma reconfigure_steps:
  assumes z: "zombie_control z p h = Inr (p0, h0)"
    and r: "resize_pool nm host port fhost fport ssl tls (p0, h0) = Inr (p1, h1)"
    and inv1: "pool_inv p1 h1"
  shows "if ni \<le> pool_max_size p1
         then \<exists>h'. reconfigure srv z ni nm host port fhost fport ssl tls ca dn pwd p h =
                    Inr (with_config ni host port fhost fport ssl tls ca dn pwd p1, h') \<and>
                  same_keys h1 h'
         else reconfigure srv z ni nm host port fhost fport ssl tls ca dn pwd p h = Inl OutOfRange"
proof -
  let ?p2 = "with_config ni host port fhost fport ssl tls ca dn pwd p1"
  have inv2: "pool_inv ?p2 h1"
    using inv1 by (rule pool_inv_fields) (simp_all add: with_config_fields)
  have unfold: "reconfigure srv z ni nm host port fhost fport ssl tls ca dn pwd p h =
      ebind (for_each (configure_slot srv) [0..<pool_max_size ?p2] (?p2, h1))
            (for_each (connect_slot srv) [0..<ni])"
    using z r by (simp add: reconfigure_def with_config_def)
  have m: "pool_max_size ?p2 = pool_max_size p1"
    by (simp add: with_config_fields)
  show ?thesis
    unfolding unfold using reconnect_loops [OF inv2, of ni srv] unfolding m .
qed


lemma zombie_control_inv:
  assumes "pool_inv p h"
  shows "\<exists>p' h'. zombie_control z p h = Inr (p', h') \<and> pool_inv p' h' \<and>
           pool_max_size p' = pool_max_size p \<and> length h' = length h"
proof -
  from zombie_control_sweep [OF assms, of z] obtain used' h' where
    r: "zombie_control z p h = Inr (p\<lparr>bs_used := used'\<rparr>, h')"
       "length used' = pool_max_size p" "length h' = length h"
    by blast
  have "pool_inv (p\<lparr>bs_used := used'\<rparr>) h'"
    using pool_inv_bits [OF assms, of used' h'] r(2,3) pool_inv_sizes(1) [OF assms] by simp
  with r show ?thesis by simp
qed

lemma resize_pool_inv:
  assumes inv: "pool_inv p h"
  shows "\<exists>p1 h1. resize_pool nm host port fhost fport ssl tls (p, h) = Inr (p1, h1) \<and>
           pool_inv p1 h1 \<and> pool_max_size p1 = nm"
proof -
  consider "nm = pool_max_size p" | "nm < pool_max_size p" | "pool_max_size p < nm"
    by linarith
  then show ?thesis
  proof cases
    case 1
    with inv show ?thesis by (simp add: resize_pool_same)
  next
    case 2
    from resize_pool_shrink [OF inv 2, of host port fhost fport ssl tls] obtain h' where
      "resize_pool nm host port fhost fport ssl tls (p, h) =
           Inr (p\<lparr>bs_used := take nm (bs_used p), v_connections := take nm (v_connections p),
                  pool_max_size := nm\<rparr>, h')" "length h' = length h"
      by blast
    moreover from this 2 have "pool_inv (p\<lparr>bs_used := take nm (bs_used p),
        v_connections := take nm (v_connections p), pool_max_size := nm\<rparr>) h'"
      using pool_inv_shrink [OF inv, of nm h'] by simp
    ultimately show ?thesis by simp
  next
    case 3
    have "pool_inv (p\<lparr>bs_used := bs_used p @ replicate (nm - pool_max_size p) False,
                  v_connections := v_connections p @
                    map Some [length h..<length h + (nm - pool_max_size p)],
                  pool_max_size := nm\<rparr>)
           (h @ map (\<lambda>i. Connection_new i host port fhost fport ssl tls) [pool_max_size p..<nm])"
        using pool_inv_grow [OF inv, of nm
          "h @ map (\<lambda>i. Connection_new i host port fhost fport ssl tls) [pool_max_size p..<nm]"] 3
      by simp
    then show ?thesis
      using resize_pool_grow [OF inv 3, of host port fhost fport ssl tls] by simp
  qed
qed

lemma reconfigure_cases:
  assumes inv: "pool_inv p h"
  shows "if ni \<le> nm
         then \<exists>p' h'. reconfigure srv z ni nm host port fhost fport ssl tls ca dn pwd p h =
                      Inr (p', h') \<and> pool_inv p' h' \<and> pool_max_size p' = nm
         else reconfigure srv z ni nm host port fhost fport ssl tls ca dn pwd p h = Inl OutOfRange"
proof -
  from zombie_control_inv [OF inv, of z] obtain p0 h0 where
    z: "zombie_control z p h = Inr (p0, h0)" and inv0: "pool_inv p0 h0"
    by blast
  from resize_pool_inv [OF inv0, of nm host port fhost fport ssl tls] obtain p1 h1 where
    r: "resize_pool nm host port fhost fport ssl tls (p0, h0) = Inr (p1, h1)"
    and inv1: "pool_inv p1 h1" and m: "pool_max_size p1 = nm"
    by blast
  note steps = reconfigure_steps [OF z r inv1, of ni srv ca dn pwd, unfolded m]
  show ?thesis
  proof (cases "ni \<le> nm")
    case True
    with steps obtain h' where
      h': "reconfigure srv z ni nm host port fhost fport ssl tls ca dn pwd p h =
             Inr (with_config ni host port fhost fport ssl tls ca dn pwd p1, h')"
          "same_keys h1 h'"
      by auto
    have "pool_inv (with_config ni host port fhost fport ssl tls ca dn pwd p1) h'"
      using inv1 h'(2) by (intro pool_inv_fields [OF inv1]) (simp_all add: with_config_fields same_keys_def)
    with True h'(1) m show ?thesis by (simp add: with_config_fields)
  next
    case False
    with steps show ?thesis by simp
  qed
qed

subsection \<open>Every operation keeps the pool well formed\<close>

lemma borrow_connection_inv:
  assumes inv: "pool_inv p h" and r: "borrow_connection srv dc p h = Inr (conn, p', h', sweep)"
  shows "pool_inv p' h' \<and> pool_max_size p' = pool_max_size p"
proof -
  note sz = pool_inv_sizes [OF inv]
  from find_first_free_cases [OF sz(1)] obtain idx where f: "find_first_free p = Inr idx"
    by blast
  show ?thesis
  proof (cases "idx = - 1")
    case True
    with f r inv show ?thesis by (simp add: borrow_connection_def)
  next
    case False
    define k where "k = size_t_of_int idx"
    show ?thesis
    proof (cases "k < pool_max_size p")
      case in_range: True
      from pool_inv_slot [OF inv in_range] obtain a where a: "v_connections p ! k = Some a"
        by blast
      have bits: "pool_inv (p\<lparr>bs_used := (bs_used p)[k := v]\<rparr>) hs" if "length hs = length h" for v hs
        using pool_inv_bits [OF inv, of "(bs_used p)[k := v]" hs] that by simp
      from borrow_connection_at [OF inv f False _ in_range a, of srv dc] r
      have "(p' = p\<lparr>bs_used := (bs_used p)[k := False]\<rparr> \<or> p' = p\<lparr>bs_used := (bs_used p)[k := True]\<rparr>)
          \<and> length h' = length h"
        by (auto simp: k_def split: if_splits)
      with bits [of h'] show ?thesis by auto
    next
      case False
      then have "length (bs_used p) \<le> size_t_of_int idx" using sz by (simp add: k_def)
      from borrow_connection_abort [OF f \<open>idx \<noteq> - 1\<close> this, of srv dc h] r show ?thesis by simp
    qed
  qed
qed

lemma return_connection_inv:
  assumes inv: "pool_inv p h" and r: "return_connection p h conn = Inr (p', h', sweep)"
  shows "pool_inv p' h' \<and> pool_max_size p' = pool_max_size p"
proof -
  from r obtain a where a: "conn = Some a" "a < length h"
    by (auto simp: return_connection_def deref_def split: option.splits if_splits)
  have bits: "pool_inv (p\<lparr>bs_used := (bs_used p)[k := False]\<rparr>) hs" if "length hs = length h" for k hs
    using pool_inv_bits [OF inv, of "(bs_used p)[k := False]" hs] that by simp
  show ?thesis
  proof (cases "snipped (h ! a)")
    case True
    with r a show ?thesis
      using return_connection_snipped [OF a(2) True, of p]
        pool_inv_store [OF inv, of "h[a := Connection_mark_as_free (h ! a)]"] by auto
  next
    case False
    with r a show ?thesis
      using return_connection_kept [OF a(2) False, of p] bits by auto
  qed
qed

lemma reset_group_role_mapping_inv:
  assumes "pool_inv p h" "reset_group_role_mapping m p = Inr p'"
  shows "pool_inv p' h \<and> pool_max_size p' = pool_max_size p"
  using assms by (auto simp: reset_group_role_mapping_def add_roles_entries pool_inv_def)

lemma step_inv:
  assumes "pool_inv p h" "step x (p, h) = Inr (p', h')"
  shows "pool_inv p' h'"
proof -
  obtain srv zmb o' where x: "x = (srv, zmb, o')" by (cases x)
  show ?thesis
  proof (cases o')
    case (Borrow dc)
    with assms x show ?thesis
      by (auto simp: borrow_connection_inv split: sum.splits elim!: ebind.elims)
  next
    case (Return conn)
    with assms x show ?thesis
      by (auto simp: return_connection_inv split: sum.splits elim!: ebind.elims)
  next
    case (Reconfigure ni nm host port fhost fport ssl tls ca dn pwd)
    with assms x reconfigure_cases [OF assms(1), of ni nm srv zmb host port fhost fport ssl tls ca dn pwd]
    show ?thesis by (auto split: if_splits)
  next
    case Zombie_control
    with assms x zombie_control_inv [OF assms(1), of zmb] show ?thesis by auto
  next
    case (Reset_mapping m)
    with assms x show ?thesis
      by (auto simp: reset_group_role_mapping_def add_roles_entries pool_inv_def)
  qed
qed

lemma run_inv:
  "pool_inv (fst s) (snd s) \<Longrightarrow> run xs s = Inr s' \<Longrightarrow> pool_inv (fst s') (snd s')"
proof (induction xs arbitrary: s)
  case Nil
  then show ?case by simp
next
  case (Cons x xs)
  then obtain s1 where s1: "step x s = Inr s1" "run xs s1 = Inr s'"
    by (auto split: sum.splits)
  with Cons.prems(1) step_inv [of "fst s" "snd s" x "fst s1" "snd s1"]
  have "pool_inv (fst s1) (snd s1)" by simp
  with Cons.IH s1 show ?case by blast
qed


lemma in_set_drop_nth:
  "x \<in> set (drop n xs) \<longleftrightarrow> (\<exists>i. n \<le> i \<and> i < length xs \<and> xs ! i = x)"
proof
  assume "x \<in> set (drop n xs)"
  then obtain j where j: "j < length xs - n" "drop n xs ! j = x"
    by (auto simp: in_set_conv_nth)
  then have "n \<le> n + j \<and> n + j < length xs \<and> xs ! (n + j) = x" by auto
  then show "\<exists>i. n \<le> i \<and> i < length xs \<and> xs ! i = x" by blast
next
  assume "\<exists>i. n \<le> i \<and> i < length xs \<and> xs ! i = x"
  then obtain i where i: "n \<le> i" "i < length xs" "xs ! i = x" by blast
  then have "i - n < length (drop n xs)" "drop n xs ! (i - n) = x" by auto
  then show "x \<in> set (drop n xs)" by (metis nth_mem)
qed

lemma zombie_control_keys:
  assumes inv: "pool_inv p h" and z: "zombie_control z p h = Inr (p0, h0)" and b: "b < length h"
  shows "idx_pool (h0 ! b) = idx_pool (h ! b) \<and> snipped (h0 ! b) = snipped (h ! b)"
proof -
  from zombie_control_sweep [OF inv, of z] z obtain used' where
    slots: "\<forall>i < pool_max_size p. \<forall>a. v_connections p ! i = Some a \<longrightarrow>
        (if bs_used p ! i \<and> z (h ! a)
         then \<not> used' ! i \<and> h0 ! a = Connection_mark_as_free (h ! a)
         else used' ! i = bs_used p ! i \<and> h0 ! a = h ! a)"
    and others: "\<forall>a < length h. Some a \<notin> set (v_connections p) \<longrightarrow> h0 ! a = h ! a"
    by auto
  have "h0 ! b = h ! b \<or> h0 ! b = Connection_mark_as_free (h ! b)"
  proof (cases "Some b \<in> set (v_connections p)")
    case True
    then obtain i where "i < pool_max_size p" "v_connections p ! i = Some b"
      using pool_inv_sizes(2) [OF inv] by (auto simp: in_set_conv_nth)
    with slots show ?thesis by (metis (full_types))
  next
    case False
    with others b show ?thesis by simp
  qed
  then show ?thesis by (auto simp: Connection_mark_as_free_def)
qed

lemma reconfigure_shrink_result:
  assumes inv: "pool_inv p h" and nm: "nm < pool_max_size p" and ni: "ni \<le> nm"
    and z: "zombie_control z p h = Inr (p0, h0)"
  shows "\<exists>h'. reconfigure srv z ni nm host port fhost fport ssl tls ca dn pwd p h =
           Inr (with_config ni host port fhost fport ssl tls ca dn pwd
                  (p0\<lparr>bs_used := take nm (bs_used p0),
                      v_connections := take nm (v_connections p),
                      pool_max_size := nm\<rparr>), h') \<and>
         length h' = length h \<and>
         (\<forall>b < length h. idx_pool (h' ! b) = idx_pool (h ! b) \<and>
            snipped (h' ! b) = (snipped (h ! b) \<or> Some b \<in> set (drop nm (v_connections p))))"
proof -
  from zombie_control_sweep [OF inv, of z] z obtain used' where
    p0: "p0 = p\<lparr>bs_used := used'\<rparr>" and len0: "length used' = pool_max_size p" "length h0 = length h"
    by auto
  have inv0: "pool_inv p0 h0"
    using zombie_control_inv [OF inv, of z] z by simp
  have m0: "pool_max_size p0 = pool_max_size p" "v_connections p0 = v_connections p"
    by (simp_all add: p0)
  from resize_pool_shrink [OF inv0, of nm host port fhost fport ssl tls] nm m0 obtain h1 where
    r: "resize_pool nm host port fhost fport ssl tls (p0, h0) =
           Inr (p0\<lparr>bs_used := take nm (bs_used p0), v_connections := take nm (v_connections p),
                  pool_max_size := nm\<rparr>, h1)"
    and len1: "length h1 = length h0"
    and h1: "\<forall>a < length h0. h1 ! a =
            (if \<exists>i. nm \<le> i \<and> i < pool_max_size p \<and> v_connections p ! i = Some a
             then Connection_mark_as_snipped (h0 ! a) else h0 ! a)"
    by auto
  let ?p1 = "p0\<lparr>bs_used := take nm (bs_used p0), v_connections := take nm (v_connections p),
                  pool_max_size := nm\<rparr>"
  have inv1: "pool_inv ?p1 h1"
    using pool_inv_shrink [OF inv0, of nm h1] nm m0 len1 by simp
  from reconfigure_steps [OF z r inv1, of ni srv ca dn pwd] ni obtain h' where
    h': "reconfigure srv z ni nm host port fhost fport ssl tls ca dn pwd p h =
           Inr (with_config ni host port fhost fport ssl tls ca dn pwd ?p1, h')"
      "same_keys h1 h'"
    by auto
  have keys: "idx_pool (h' ! b) = idx_pool (h ! b) \<and>
      snipped (h' ! b) = (snipped (h ! b) \<or> Some b \<in> set (drop nm (v_connections p)))"
    if b: "b < length h" for b
  proof -
    have range: "(\<exists>i. nm \<le> i \<and> i < pool_max_size p \<and> v_connections p ! i = Some b) =
        (Some b \<in> set (drop nm (v_connections p)))"
      using pool_inv_sizes(2) [OF inv] by (simp add: in_set_drop_nth)
    have k0: "idx_pool (h0 ! b) = idx_pool (h ! b) \<and> snipped (h0 ! b) = snipped (h ! b)"
      using zombie_control_keys [OF inv z b] .
    have k1: "idx_pool (h1 ! b) = idx_pool (h0 ! b) \<and>
        snipped (h1 ! b) = (snipped (h0 ! b) \<or> Some b \<in> set (drop nm (v_connections p)))"
      using h1 b len0 range by (auto simp: Connection_mark_as_snipped_def)
    have "idx_pool (h' ! b) = idx_pool (h1 ! b) \<and> snipped (h' ! b) = snipped (h1 ! b)"
      using same_keys_nth [OF h'(2), of b] b len0 len1 by simp
    with k0 k1 show ?thesis by simp
  qed
  have "length h' = length h"
    using h'(2) len0 len1 by (simp add: same_keys_def)
  with h'(1) keys show ?thesis by blast
qed

text \<open>
  C8. In a well-formed pool \<open>zombie_control\<close> completes, and changes nothing but used bits
  and handles: for a slot \<open>i\<close> below \<open>pool_max_size\<close> whose bit is set and whose handle the
  probe reports as a zombie, the bit is cleared and the handle is marked free; for every
  other slot, free or busy with a live connection, the bit and the handle are as before.
  Handles that no slot points to are not touched.
\<close>

theorem zombie_control_frees_zombies:
  assumes "pool_inv p h"
  shows "(\<exists>s. zombie_control z p h = Inr s)
       \<and> (zombie_control z p h = Inr (p', h') \<longrightarrow>
            p' = p\<lparr>bs_used := bs_used p'\<rparr> \<and> length (bs_used p') = pool_max_size p \<and>
            length h' = length h \<and>
            (i < pool_max_size p \<and> v_connections p ! i = Some a \<longrightarrow>
               (if bs_used p ! i \<and> z (h ! a)
                then \<not> bs_used p' ! i \<and> h' ! a = Connection_mark_as_free (h ! a)
                else bs_used p' ! i = bs_used p ! i \<and> h' ! a = h ! a)) \<and>
            (b < length h \<and> Some b \<notin> set (v_connections p) \<longrightarrow> h' ! b = h ! b))"
proof -
  from zombie_control_sweep [OF assms, of z] obtain used' h1 where
    r: "zombie_control z p h = Inr (p\<lparr>bs_used := used'\<rparr>, h1)"
      "length used' = pool_max_size p" "length h1 = length h"
    and slots: "\<forall>i < pool_max_size p. \<forall>a. v_connections p ! i = Some a \<longrightarrow>
        (if bs_used p ! i \<and> z (h ! a)
         then \<not> used' ! i \<and> h1 ! a = Connection_mark_as_free (h ! a)
         else used' ! i = bs_used p ! i \<and> h1 ! a = h ! a)"
    and others: "\<forall>a < length h. Some a \<notin> set (v_connections p) \<longrightarrow> h1 ! a = h ! a"
    by blast
  show ?thesis
  proof (intro conjI impI)
    show "\<exists>s. zombie_control z p h = Inr s" using r(1) by blast
  next
    assume "zombie_control z p h = Inr (p', h')"
    with r have eq: "p' = p\<lparr>bs_used := used'\<rparr>" "h' = h1" by simp_all
    show "p' = p\<lparr>bs_used := bs_used p'\<rparr>" by (simp add: eq)
    show "length (bs_used p') = pool_max_size p" using r by (simp add: eq)
    show "length h' = length h" using r by (simp add: eq)
    show "if bs_used p ! i \<and> z (h ! a)
                then \<not> bs_used p' ! i \<and> h' ! a = Connection_mark_as_free (h ! a)
                else bs_used p' ! i = bs_used p ! i \<and> h' ! a = h ! a"
      if "i < pool_max_size p \<and> v_connections p ! i = Some a"
    proof -
      from slots that have "if bs_used p ! i \<and> z (h ! a)
         then \<not> used' ! i \<and> h1 ! a = Connection_mark_as_free (h ! a)
         else used' ! i = bs_used p ! i \<and> h1 ! a = h ! a"
        by blast
      then show ?thesis by (simp add: eq)
    qed
    show "h' ! b = h ! b" if "b < length h \<and> Some b \<notin> set (v_connections p)"
      using others that by (simp add: eq)
  qed
qed


text \<open>The full pool of two slots is what two borrows leave of the constructed pool.\<close>

lemma pool2_full_reachable:
  "Pool_new accepting 0 2 ''ldap'' 389 ''backup'' 636 False True ''ca'' ''cn=admin'' ''secret'' []
     = Inr (pool2, store2)
   \<and> run [(accepting, no_zombie, Borrow False), (accepting, no_zombie, Borrow False)]
         (pool2, store2) = Inr (pool2_full, store2_full)"
proof
  show "Pool_new accepting 0 2 ''ldap'' 389 ''backup'' 636 False True ''ca'' ''cn=admin''
      ''secret'' [] = Inr (pool2, store2)"
    by (simp add: Pool_new_def loop_defs conn_defs pool2_def store2_def upt_rec numeral_2_eq_2)
  show "run [(accepting, no_zombie, Borrow False), (accepting, no_zombie, Borrow False)]
         (pool2, store2) = Inr (pool2_full, store2_full)"
    by (simp add: borrow_defs loop_defs conn_defs int_of_size_t_small size_t_of_int_small
        pool2_def store2_def pool2_full_def store2_full_def upt_rec)
qed

theorem zombie_control_frees_zombies_witness:
  "pool_inv pool2_full store2_full
   \<and> dead_slot0 (store2_full ! 0) \<and> \<not> dead_slot0 (store2_full ! 1)
   \<and> zombie_control dead_slot0 pool2_full store2_full =
       Inr (pool2\<lparr>bs_used := [False, True]\<rparr>,
            [fresh_conn 0, Connection_mark_as_busy (fresh_conn 1)])
   \<and> \<not> bs_used (pool2\<lparr>bs_used := [False, True]\<rparr>) ! 0
   \<and> bs_used (pool2\<lparr>bs_used := [False, True]\<rparr>) ! 1 = bs_used pool2_full ! 1"
proof -
  have inv: "pool_inv pool2_full store2_full" by (rule pool_inv_pool2_full)
  have run: "zombie_control dead_slot0 pool2_full store2_full =
       Inr (pool2\<lparr>bs_used := [False, True]\<rparr>,
            [fresh_conn 0, Connection_mark_as_busy (fresh_conn 1)])"
    by (simp add: loop_defs conn_defs pool2_full_def pool2_def store2_full_def dead_slot0_def
        upt_rec)
  have probe: "dead_slot0 (store2_full ! 0)" "\<not> dead_slot0 (store2_full ! 1)"
    by (simp_all add: dead_slot0_def store2_full_def conn_defs)
  have slot0: "0 < pool_max_size pool2_full \<and> v_connections pool2_full ! 0 = Some 0"
    and slot1: "1 < pool_max_size pool2_full \<and> v_connections pool2_full ! 1 = Some 1"
    and busy: "bs_used pool2_full ! 0"
    by (simp_all add: pool2_full_def pool2_def)
  from zombie_control_frees_zombies [OF inv, where z = dead_slot0 and i = 0 and a = 0
      and p' = "pool2\<lparr>bs_used := [False, True]\<rparr>"
      and h' = "[fresh_conn 0, Connection_mark_as_busy (fresh_conn 1)]"] run slot0 probe busy
  have "\<not> bs_used (pool2\<lparr>bs_used := [False, True]\<rparr>) ! 0"
    by simp
  moreover
  from zombie_control_frees_zombies [OF inv, where z = dead_slot0 and i = 1 and a = 1
      and p' = "pool2\<lparr>bs_used := [False, True]\<rparr>"
      and h' = "[fresh_conn 0, Connection_mark_as_busy (fresh_conn 1)]"] run slot1 probe
  have "bs_used (pool2\<lparr>bs_used := [False, True]\<rparr>) ! 1 = bs_used pool2_full ! 1"
    by simp
  ultimately show ?thesis using inv run probe by simp
qed

text \<open>
  C3. The constructor completes with a bitmap and a slot vector of \<open>pool_max_size\<close>
  entries. Every operation that completes on a well-formed pool (borrow, return,
  reconfigure, zombie control, and the reset of the mapping) leaves a well-formed pool, so
  the two lengths equal \<open>pool_max_size\<close> again. Hence after every sequence of operations
  on a constructed pool the number of set bits is at most \<open>pool_max_size\<close>; it is a count,
  so it is never negative.
\<close>

theorem pool_sizes_invariant:
  "(\<exists>p h'. Pool_new srv ni nm host port fhost fport ssl tls ca dn pwd h = Inr (p, h') \<and>
       pool_inv p h' \<and> pool_max_size p = nm \<and>
       length (bs_used p) = nm \<and> length (v_connections p) = nm)
   \<and> (pool_inv p h \<and> step x (p, h) = Inr (p', h') \<longrightarrow>
        pool_inv p' h' \<and> length (bs_used p') = pool_max_size p' \<and>
        length (v_connections p') = pool_max_size p')
   \<and> (Pool_new srv ni nm host port fhost fport ssl tls ca dn pwd h = Inr s \<and>
        run xs s = Inr (p'', h'') \<longrightarrow>
        length (bs_used p'') = pool_max_size p'' \<and>
        length (v_connections p'') = pool_max_size p'' \<and>
        bs_count (bs_used p'') \<le> pool_max_size p'')"
proof (intro conjI impI)
  from Pool_new_inv [of srv ni nm host port fhost fport ssl tls ca dn pwd h]
  obtain p0 h0 where new: "Pool_new srv ni nm host port fhost fport ssl tls ca dn pwd h = Inr (p0, h0)"
    "pool_inv p0 h0" "pool_max_size p0 = nm"
    by blast
  then show "\<exists>p h'. Pool_new srv ni nm host port fhost fport ssl tls ca dn pwd h = Inr (p, h') \<and>
       pool_inv p h' \<and> pool_max_size p = nm \<and>
       length (bs_used p) = nm \<and> length (v_connections p) = nm"
    using pool_inv_sizes [OF new(2)] by auto
  {
    assume a: "pool_inv p h \<and> step x (p, h) = Inr (p', h')"
    then show "pool_inv p' h'" using step_inv by blast
    then show "length (bs_used p') = pool_max_size p'" "length (v_connections p') = pool_max_size p'"
      by (simp_all add: pool_inv_def)
  }
  assume r: "Pool_new srv ni nm host port fhost fport ssl tls ca dn pwd h = Inr s \<and>
        run xs s = Inr (p'', h'')"
  with new have "pool_inv (fst s) (snd s)" by auto
  with r run_inv [of s xs "(p'', h'')"] have inv: "pool_inv p'' h''" by simp
  then show "length (bs_used p'') = pool_max_size p''" "length (v_connections p'') = pool_max_size p''"
    by (simp_all add: pool_inv_def)
  then show "bs_count (bs_used p'') \<le> pool_max_size p''"
    using bs_count_le [of "bs_used p''"] by simp
qed

theorem pool_sizes_invariant_witness:
  "Pool_new accepting 0 2 ''ldap'' 389 ''backup'' 636 False True ''ca'' ''cn=admin'' ''secret'' []
     = Inr (pool2, store2)
   \<and> run [(accepting, no_zombie, Borrow False)] (pool2, store2) = Inr (pool2_busy, store2_busy)
   \<and> length (bs_used pool2_busy) = pool_max_size pool2_busy
   \<and> length (v_connections pool2_busy) = pool_max_size pool2_busy
   \<and> bs_count (bs_used pool2_busy) \<le> pool_max_size pool2_busy
   \<and> bs_count (bs_used pool2_busy) = 1"
proof -
  have new: "Pool_new accepting 0 2 ''ldap'' 389 ''backup'' 636 False True ''ca'' ''cn=admin''
      ''secret'' [] = Inr (pool2, store2)"
    by (simp add: Pool_new_def loop_defs conn_defs pool2_def store2_def upt_rec numeral_2_eq_2)
  have run: "run [(accepting, no_zombie, Borrow False)] (pool2, store2) =
      Inr (pool2_busy, store2_busy)"
    by (simp add: borrow_defs loop_defs conn_defs int_of_size_t_small size_t_of_int_small
        pool2_def store2_def pool2_busy_def store2_busy_def upt_rec)
  from pool_sizes_invariant [where srv = accepting and ni = 0 and nm = 2 and host = "''ldap''"
      and port = 389 and fhost = "''backup''" and fport = 636 and ssl = False and tls = True
      and ca = "''ca''" and dn = "''cn=admin''" and pwd = "''secret''" and h = "[]"
      and s = "(pool2, store2)" and xs = "[(accepting, no_zombie, Borrow False)]"
      and p'' = pool2_busy and h'' = store2_busy] new run
  have "length (bs_used pool2_busy) = pool_max_size pool2_busy \<and>
        length (v_connections pool2_busy) = pool_max_size pool2_busy \<and>
        bs_count (bs_used pool2_busy) \<le> pool_max_size pool2_busy"
    by simp
  moreover have "bs_count (bs_used pool2_busy) = 1"
    by (simp add: pool2_busy_def bs_count_def)
  ultimately show ?thesis using new run by simp
qed

text \<open>
  C4, as the code has it. A \<open>reconfigure\<close> of a well-formed pool to a smaller
  \<open>pool_max_size\<close>, asking for no more eager connections than slots, completes. It marks
  as snipped exactly the handles of the slots from the new size up to the old one, and
  changes the index of no handle. The slot vector is the old one truncated to the new
  size. The bitmap is the one left by the forced zombie sweep that \<open>reconfigure\<close> runs
  first, truncated to the new size: a lower bit is preserved unless its slot was busy with
  a zombie, whose bit the sweep clears.
\<close>

theorem reconfigure_shrink:
  assumes "pool_inv p h" and "nm < pool_max_size p" and "ni \<le> nm"
  shows "(\<exists>s. reconfigure srv z ni nm host port fhost fport ssl tls ca dn pwd p h = Inr s)
       \<and> (reconfigure srv z ni nm host port fhost fport ssl tls ca dn pwd p h = Inr (p', h') \<and>
          zombie_control z p h = Inr (pz, hz) \<longrightarrow>
            pool_max_size p' = nm \<and>
            v_connections p' = take nm (v_connections p) \<and>
            bs_used p' = take nm (bs_used pz) \<and>
            length h' = length h \<and>
            (b < length h \<longrightarrow>
               idx_pool (h' ! b) = idx_pool (h ! b) \<and>
               snipped (h' ! b) =
                 (snipped (h ! b) \<or> Some b \<in> set (drop nm (v_connections p)))) \<and>
            (i < nm \<and> v_connections p ! i = Some a \<longrightarrow>
               bs_used p' ! i = (bs_used p ! i \<and> \<not> z (h ! a))))"
proof (intro conjI impI)
  from zombie_control_sweep [OF assms(1), of z] obtain used1 h1 where
    z1: "zombie_control z p h = Inr (p\<lparr>bs_used := used1\<rparr>, h1)"
    and len: "length used1 = pool_max_size p"
    and slots: "\<forall>i < pool_max_size p. \<forall>a. v_connections p ! i = Some a \<longrightarrow>
        (if bs_used p ! i \<and> z (h ! a)
         then \<not> used1 ! i \<and> h1 ! a = Connection_mark_as_free (h ! a)
         else used1 ! i = bs_used p ! i \<and> h1 ! a = h ! a)"
    by blast
  show "\<exists>s. reconfigure srv z ni nm host port fhost fport ssl tls ca dn pwd p h = Inr s"
    using reconfigure_shrink_result [OF assms z1, of srv host port fhost fport ssl tls ca dn pwd]
    by blast
  assume r: "reconfigure srv z ni nm host port fhost fport ssl tls ca dn pwd p h = Inr (p', h') \<and>
          zombie_control z p h = Inr (pz, hz)"
  with z1 have pz: "pz = p\<lparr>bs_used := used1\<rparr>" by simp
  from reconfigure_shrink_result [OF assms, of z pz hz srv host port fhost fport ssl tls ca dn pwd] r
  have p': "p' = with_config ni host port fhost fport ssl tls ca dn pwd
                  (pz\<lparr>bs_used := take nm (bs_used pz),
                      v_connections := take nm (v_connections p),
                      pool_max_size := nm\<rparr>)"
    and lh: "length h' = length h"
    and keys: "\<forall>b < length h. idx_pool (h' ! b) = idx_pool (h ! b) \<and>
            snipped (h' ! b) = (snipped (h ! b) \<or> Some b \<in> set (drop nm (v_connections p)))"
    by auto
  show "pool_max_size p' = nm" by (simp add: p' with_config_fields)
  show "v_connections p' = take nm (v_connections p)" by (simp add: p' with_config_fields)
  show bits: "bs_used p' = take nm (bs_used pz)" by (simp add: p' with_config_fields)
  show "length h' = length h" by (rule lh)
  show "idx_pool (h' ! b) = idx_pool (h ! b)" if "b < length h" using keys that by simp
  show "snipped (h' ! b) = (snipped (h ! b) \<or> Some b \<in> set (drop nm (v_connections p)))"
    if "b < length h" using keys that by simp
  show "bs_used p' ! i = (bs_used p ! i \<and> \<not> z (h ! a))"
    if ia: "i < nm \<and> v_connections p ! i = Some a"
  proof -
    from ia assms(2) have "i < pool_max_size p" by simp
    with slots ia have "used1 ! i = (bs_used p ! i \<and> \<not> z (h ! a))"
      by (metis (full_types))
    with ia show ?thesis by (simp add: bits pz)
  qed
qed

text \<open>
  The forced sweep is why the lower bits are not always preserved: slot 0 is busy with a
  dead connection, and after the shrink to one slot its bit is clear.
\<close>

theorem reconfigure_shrink_forced_sweep:
  "reconfigure accepting dead_slot0 0 1 ''ldap'' 389 ''backup'' 636 False True ''ca''
     ''cn=admin'' ''secret'' pool2_full store2_full =
   Inr (pool2\<lparr>pool_max_size := 1, bs_used := [False], v_connections := [Some 0]\<rparr>,
        [fresh_conn 0, Connection_mark_as_snipped (Connection_mark_as_busy (fresh_conn 1))])
   \<and> take 1 (bs_used pool2_full) = [True]
   \<and> bs_used (pool2\<lparr>pool_max_size := 1, bs_used := [False], v_connections := [Some 0]\<rparr>)
       \<noteq> take 1 (bs_used pool2_full)"
  by (simp add: reconfigure_def loop_defs conn_defs pool2_full_def pool2_def store2_full_def
      dead_slot0_def upt_rec)

theorem reconfigure_shrink_witness:
  "pool_inv pool2_full store2_full \<and> 1 < pool_max_size pool2_full
   \<and> zombie_control dead_slot0 pool2_full store2_full =
       Inr (pool2\<lparr>bs_used := [False, True]\<rparr>,
            [fresh_conn 0, Connection_mark_as_busy (fresh_conn 1)])
   \<and> reconfigure accepting dead_slot0 0 1 ''ldap'' 389 ''backup'' 636 False True ''ca''
       ''cn=admin'' ''secret'' pool2_full store2_full =
     Inr (pool2\<lparr>pool_max_size := 1, bs_used := [False], v_connections := [Some 0]\<rparr>,
          [fresh_conn 0, Connection_mark_as_snipped (Connection_mark_as_busy (fresh_conn 1))])
   \<and> v_connections (pool2\<lparr>pool_max_size := 1, bs_used := [False], v_connections := [Some 0]\<rparr>)
       = take 1 (v_connections pool2_full)
   \<and> bs_used (pool2\<lparr>pool_max_size := 1, bs_used := [False], v_connections := [Some 0]\<rparr>)
       = take 1 (bs_used (pool2\<lparr>bs_used := [False, True]\<rparr>))
   \<and> snipped ([fresh_conn 0,
                 Connection_mark_as_snipped (Connection_mark_as_busy (fresh_conn 1))] ! 1)"
proof -
  have inv: "pool_inv pool2_full store2_full" by (rule pool_inv_pool2_full)
  have nm: "1 < pool_max_size pool2_full" "(0::nat) \<le> 1"
    by (simp_all add: pool2_full_def pool2_def)
  have zc: "zombie_control dead_slot0 pool2_full store2_full =
       Inr (pool2\<lparr>bs_used := [False, True]\<rparr>,
            [fresh_conn 0, Connection_mark_as_busy (fresh_conn 1)])"
    by (simp add: loop_defs conn_defs pool2_full_def pool2_def store2_full_def dead_slot0_def
        upt_rec)
  have rc: "reconfigure accepting dead_slot0 0 1 ''ldap'' 389 ''backup'' 636 False True ''ca''
       ''cn=admin'' ''secret'' pool2_full store2_full =
     Inr (pool2\<lparr>pool_max_size := 1, bs_used := [False], v_connections := [Some 0]\<rparr>,
          [fresh_conn 0, Connection_mark_as_snipped (Connection_mark_as_busy (fresh_conn 1))])"
    by (simp add: reconfigure_def loop_defs conn_defs pool2_full_def pool2_def store2_full_def
        dead_slot0_def upt_rec)
  have b: "1 < length store2_full" "Some 1 \<in> set (drop 1 (v_connections pool2_full))"
    by (simp_all add: store2_full_def pool2_full_def pool2_def)
  from reconfigure_shrink [OF inv nm, where srv = accepting and z = dead_slot0
      and host = "''ldap''" and port = 389 and fhost = "''backup''" and fport = 636
      and ssl = False and tls = True and ca = "''ca''" and dn = "''cn=admin''"
      and pwd = "''secret''" and b = 1
      and p' = "pool2\<lparr>pool_max_size := 1, bs_used := [False], v_connections := [Some 0]\<rparr>"
      and h' = "[fresh_conn 0, Connection_mark_as_snipped (Connection_mark_as_busy (fresh_conn 1))]"
      and pz = "pool2\<lparr>bs_used := [False, True]\<rparr>"
      and hz = "[fresh_conn 0, Connection_mark_as_busy (fresh_conn 1)]"] zc rc b
  have "v_connections (pool2\<lparr>pool_max_size := 1, bs_used := [False], v_connections := [Some 0]\<rparr>)
       = take 1 (v_connections pool2_full)
   \<and> bs_used (pool2\<lparr>pool_max_size := 1, bs_used := [False], v_connections := [Some 0]\<rparr>)
       = take 1 (bs_used (pool2\<lparr>bs_used := [False, True]\<rparr>))
   \<and> snipped ([fresh_conn 0,
                 Connection_mark_as_snipped (Connection_mark_as_busy (fresh_conn 1))] ! 1)"
    by simp
  with inv nm zc rc show ?thesis by simp
qed

end
